theory Spec2Isabelle
  imports Complex_Main "HOL-Library.Multiset"
begin

section \<open>Objects of the simulation\<close>

text \<open>
  The simulation of \<^verbatim>\<open>SyMBac/cell_simulation.py\<close> mutates shared Python objects: the
  pymunk bodies are referenced by the space and by the cells, the cells by the live list,
  by the mother and daughter links and by the historic list. Objects therefore live
  in a store, addressed by references, and every list of the source is a list of
  references.
\<close>

type_synonym ref = nat

text \<open>A pymunk body: its \<^verbatim>\<open>body_type\<close> (0 is dynamic) and \<^verbatim>\<open>position.y\<close>.\<close>

record pm_body =
  body_type :: nat
  position_y :: real

text \<open>
  A \<^verbatim>\<open>Cell\<close> object. The fields the simulation module reads or writes are explicit;
  everything else the class keeps (length, width, position, angle, ...) is \<open>attrs\<close>.
\<close>

record 'a cell =
  body :: ref
  shape :: ref
  lysis_p :: real
  mother :: "ref option"
  daughter :: "ref option"
  cell_t :: "nat option"
  attrs :: 'a

text \<open>The calls made on the pymunk space, in order, and the pickled files.\<close>

datatype event = Add_body ref | Add_shape ref | Remove_body ref | Remove_shape ref | Step real

datatype 'a pickled = Timeseries "'a cell list list" | Space "pm_body list" "ref list"

text \<open>
  The state a run threads through its calls: the store (\<open>body_heap\<close>, \<open>shape_body\<close>
  for \<^verbatim>\<open>shape.body\<close>, \<open>cell_heap\<close>, the allocation counter \<open>next_ref\<close>), the space
  (\<^verbatim>\<open>space.bodies\<close>, \<^verbatim>\<open>space.shapes\<close>, in insertion order, and the log of the calls made
  on it), and the mutable arguments of \<^verbatim>\<open>step_and_update\<close>: \<^verbatim>\<open>cells\<close>,
  \<^verbatim>\<open>cell_timeseries\<close>, \<^verbatim>\<open>x[0]\<close>, \<^verbatim>\<open>historic_cells\<close>. \<open>draws_used\<close> counts the calls
  of \<^verbatim>\<open>norm.rvs()\<close>, \<open>files\<close> logs every file written, \<open>app_exit\<close> records
  \<^verbatim>\<open>pyglet.app.exit()\<close>.
\<close>

record 'a sim =
  body_heap :: "ref \<Rightarrow> pm_body"
  shape_body :: "ref \<Rightarrow> ref"
  cell_heap :: "ref \<Rightarrow> 'a cell"
  next_ref :: ref
  space_bodies :: "ref list"
  space_shapes :: "ref list"
  calls :: "event list"
  cells :: "ref list"
  cell_timeseries :: "ref list list"
  x0 :: int
  historic_cells :: "ref list"
  draws_used :: nat
  files :: "(string \<times> 'a pickled) list"
  app_exit :: bool

text \<open>
  What the module takes from outside \<^verbatim>\<open>src/\<close>, as parameters: the physics engine's
  dynamics (\<open>physics dt bodies shapes heap\<close> is the body store after one
  \<^verbatim>\<open>space.step(dt)\<close>), the outcomes of \<^verbatim>\<open>norm.rvs()\<close> in call order, the quantile
  function of the standard normal distribution inside (0, 1), the time the pyglet clock
  reports to the function it calls (\<open>clock k\<close> at its call number \<open>k\<close>), and the methods
  of the \<^verbatim>\<open>Cell\<close> class of \<^verbatim>\<open>SyMBac.cell\<close>.

  Modelled from the spec: the \<^verbatim>\<open>Cell\<close> class is not under \<^verbatim>\<open>src/\<close>. Following
  section 4.2, \<open>update_length\<close> advances the length (a side effect on the cell's own
  attributes), \<open>is_dividing\<close> is a pure predicate, \<open>create_pm_cell\<close> recomputes the
  body and shape of the cell and returns either the body and shape pair (\<open>None\<close>) or a
  daughter descriptor (\<open>Some d\<close>, a dictionary of \<open>details_len d\<close> entries),
  \<open>new_Cell\<close> is the constructor applied to a descriptor (attributes, lysis
  probability and first body of the new cell), and \<open>update_position\<close> copies the
  body's pose into the cell. \<open>first_Cell\<close> is the constructor as \<^verbatim>\<open>run_simulation\<close>
  calls it, on the numeric keyword arguments in the order of the call.

  Modelled from the spec: \<^verbatim>\<open>trench_creator\<close> of \<^verbatim>\<open>SyMBac.trench_geometry\<close> is not under
  \<^verbatim>\<open>src/\<close>. Following section 6 it populates the static boundary geometry into the
  space: \<open>trench_creator width length\<close> lists the bodies it adds, each with one shape
  of its own.
\<close>

record ('a, 'd) env =
  physics :: "real \<Rightarrow> ref list \<Rightarrow> ref list \<Rightarrow> (ref \<Rightarrow> pm_body) \<Rightarrow> ref \<Rightarrow> pm_body"
  rvs :: "nat \<Rightarrow> real"
  quantile :: "real \<Rightarrow> real"
  update_length :: "'a \<Rightarrow> 'a"
  is_dividing :: "'a \<Rightarrow> bool"
  create_pm_cell :: "'a \<Rightarrow> 'a \<times> pm_body \<times> 'd option"
  details_len :: "'d \<Rightarrow> nat"
  new_Cell :: "'d \<Rightarrow> 'a \<times> real \<times> pm_body"
  update_position :: "pm_body \<Rightarrow> 'a \<Rightarrow> 'a"
  trench_creator :: "real \<Rightarrow> real \<Rightarrow> pm_body list"
  first_Cell :: "real list \<Rightarrow> 'a \<times> pm_body"
  clock :: "nat \<Rightarrow> real"

section \<open>The pymunk space\<close>

text \<open>
  \<^verbatim>\<open>space.step(dt)\<close>, \<^verbatim>\<open>space.add\<close> and \<^verbatim>\<open>space.remove\<close>. Removing an object the
  space does not hold changes nothing (section 4.1 of the specification).
\<close>

definition space_step :: "('a, 'd) env \<Rightarrow> real \<Rightarrow> 'a sim \<Rightarrow> 'a sim" where
  "space_step K dt s =
     s\<lparr>body_heap := physics K dt (space_bodies s) (space_shapes s) (body_heap s),
       calls := calls s @ [Step dt]\<rparr>"

definition space_add_body :: "ref \<Rightarrow> 'a sim \<Rightarrow> 'a sim" where
  "space_add_body b s = s\<lparr>space_bodies := space_bodies s @ [b], calls := calls s @ [Add_body b]\<rparr>"

definition space_add_shape :: "ref \<Rightarrow> 'a sim \<Rightarrow> 'a sim" where
  "space_add_shape p s = s\<lparr>space_shapes := space_shapes s @ [p], calls := calls s @ [Add_shape p]\<rparr>"

definition space_remove_body :: "ref \<Rightarrow> 'a sim \<Rightarrow> 'a sim" where
  "space_remove_body b s =
     s\<lparr>space_bodies := remove1 b (space_bodies s), calls := calls s @ [Remove_body b]\<rparr>"

definition space_remove_shape :: "ref \<Rightarrow> 'a sim \<Rightarrow> 'a sim" where
  "space_remove_shape p s =
     s\<lparr>space_shapes := remove1 p (space_shapes s), calls := calls s @ [Remove_shape p]\<rparr>"

text \<open>\<^verbatim>\<open>for _ in range(n): space.step(dt)\<close>\<close>

primrec steps :: "('a, 'd) env \<Rightarrow> nat \<Rightarrow> real \<Rightarrow> 'a sim \<Rightarrow> 'a sim" where
  "steps K 0 dt s = s"
| "steps K (Suc n) dt s = steps K n dt (space_step K dt s)"

section \<open>\<^verbatim>\<open>wipe_space\<close>\<close>

text \<open>
  The bodies and shapes are paired by position (\<^verbatim>\<open>zip(space.bodies, space.shapes)\<close>);
  the pairs whose body is dynamic are collected, then the bodies are removed, then the
  shapes.
\<close>

definition wipe_space :: "'a sim \<Rightarrow> 'a sim" where
  "wipe_space s =
     (let to_remove = filter (\<lambda>(b, poly). body_type (body_heap s b) = 0)
                        (zip (space_bodies s) (space_shapes s));
          bodies_to_remove = map fst to_remove;
          shapes_to_remove = map snd to_remove
      in fold space_remove_shape shapes_to_remove (fold space_remove_body bodies_to_remove s))"

section \<open>The removal passes of \<^verbatim>\<open>step_and_update\<close>\<close>

text \<open>\<^verbatim>\<open>y < 0 or y > ylim\<close>\<close>

definition out_of_bounds :: "real \<Rightarrow> real \<Rightarrow> bool" where
  "out_of_bounds ylim y \<longleftrightarrow> y < 0 \<or> y > ylim"

text \<open>\<^verbatim>\<open>shape.body.position.y\<close>\<close>

definition shape_y :: "'a sim \<Rightarrow> ref \<Rightarrow> real" where
  "shape_y s p = position_y (body_heap s (shape_body s p))"

text \<open>
  Lines 257 to 267: the shapes whose body is out of bounds are collected over a copy of
  \<^verbatim>\<open>space.shapes\<close>; then each pair is removed and the space stepped once.
\<close>

definition shapes_to_remove :: "real \<Rightarrow> 'a sim \<Rightarrow> (ref \<times> ref) list" where
  "shapes_to_remove ylim s =
     map (\<lambda>p. (shape_body s p, p)) (filter (\<lambda>p. out_of_bounds ylim (shape_y s p)) (space_shapes s))"

definition remove_and_step :: "('a, 'd) env \<Rightarrow> real \<Rightarrow> ref \<times> ref \<Rightarrow> 'a sim \<Rightarrow> 'a sim" where
  "remove_and_step K dt bp s =
     space_step K dt (space_remove_shape (snd bp) (space_remove_body (fst bp) s))"

definition remove_shapes_pass :: "('a, 'd) env \<Rightarrow> real \<Rightarrow> real \<Rightarrow> 'a sim \<Rightarrow> 'a sim" where
  "remove_shapes_pass K dt ylim s = fold (remove_and_step K dt) (shapes_to_remove ylim s) s"

text \<open>
  \<^verbatim>\<open>norm.ppf(p)\<close> of scipy: minus infinity at 0, plus infinity at 1, nan outside
  [0, 1], the quantile inside. \<open>rvs_le d e\<close> is \<^verbatim>\<open>d <= e\<close> for a finite draw \<open>d\<close>; a
  comparison with nan is false.
\<close>

datatype extended = Minus_inf | Finite real | Plus_inf | NaN

definition norm_ppf :: "('a, 'd) env \<Rightarrow> real \<Rightarrow> extended" where
  "norm_ppf K p =
     (if p < 0 \<or> p > 1 then NaN
      else if p = 0 then Minus_inf
      else if p = 1 then Plus_inf
      else Finite (quantile K p))"

fun rvs_le :: "real \<Rightarrow> extended \<Rightarrow> bool" where
  "rvs_le d Minus_inf = False"
| "rvs_le d (Finite r) = (d \<le> r)"
| "rvs_le d Plus_inf = True"
| "rvs_le d NaN = False"

text \<open>\<^verbatim>\<open>cell.shape.body.position.y\<close>\<close>

definition cell_y :: "'a sim \<Rightarrow> ref \<Rightarrow> real" where
  "cell_y s c = shape_y s (shape (cell_heap s c))"

text \<open>
  Lines 286 to 292. \<open>n\<close> is the number of draws made so far, \<open>len\<close> is
  \<^verbatim>\<open>len(cells)\<close>, which the loop does not change. A cell in bounds costs one draw
  (\<^verbatim>\<open>norm.rvs()\<close> is evaluated before \<^verbatim>\<open>len(cells) > 1\<close>).
\<close>

fun cells_to_remove :: "('a, 'd) env \<Rightarrow> real \<Rightarrow> 'a sim \<Rightarrow> nat \<Rightarrow> nat \<Rightarrow> ref list \<Rightarrow> ref list \<times> nat" where
  "cells_to_remove K ylim s len n [] = ([], n)"
| "cells_to_remove K ylim s len n (c # cs) =
     (if out_of_bounds ylim (cell_y s c) then
        (let (rs, n') = cells_to_remove K ylim s len n cs in (c # rs, n'))
      else if rvs_le (rvs K n) (norm_ppf K (lysis_p (cell_heap s c))) \<and> len > 1 then
        (let (rs, n') = cells_to_remove K ylim s len (Suc n) cs in (c # rs, n'))
      else cells_to_remove K ylim s len (Suc n) cs)"

text \<open>Lines 294 to 299: \<^verbatim>\<open>if cell_item in cells: cells.remove(cell_item); space.step(dt)\<close>\<close>

definition remove_cell :: "('a, 'd) env \<Rightarrow> real \<Rightarrow> ref \<Rightarrow> 'a sim \<Rightarrow> 'a sim" where
  "remove_cell K dt c s =
     (if c \<in> set (cells s) then space_step K dt (s\<lparr>cells := remove1 c (cells s)\<rparr>) else s)"

definition remove_cells_pass :: "('a, 'd) env \<Rightarrow> real \<Rightarrow> real \<Rightarrow> 'a sim \<Rightarrow> 'a sim" where
  "remove_cells_pass K dt ylim s =
     (let (rs, n) = cells_to_remove K ylim s (length (cells s)) (draws_used s) (cells s)
      in fold (remove_cell K dt) rs (s\<lparr>draws_used := n\<rparr>))"

section \<open>\<^verbatim>\<open>update_pm_cells\<close>\<close>

text \<open>
  Modelled from the spec: \<^verbatim>\<open>Cell.create_pm_cell\<close> is not under \<^verbatim>\<open>src/\<close>. Following
  section 4.2 it recomputes the body and shape of the cell: the cell gets a new body
  object and a new shape object attached to it, and its attributes are updated; the
  result is what the method returns.
\<close>

definition pm_create :: "('a, 'd) env \<Rightarrow> ref \<Rightarrow> 'a sim \<Rightarrow> 'd option \<times> 'a sim" where
  "pm_create K c s =
     (let (a, bd, res) = create_pm_cell K (attrs (cell_heap s c));
          b = next_ref s;
          p = Suc (next_ref s)
      in (res,
          s\<lparr>body_heap := (body_heap s)(b := bd),
            shape_body := (shape_body s)(p := b),
            cell_heap := (cell_heap s)(c := (cell_heap s c)\<lparr>body := b, shape := p, attrs := a\<rparr>),
            next_ref := next_ref s + 2\<rparr>))"

text \<open>
  Modelled from the spec: the constructor \<^verbatim>\<open>Cell(**daughter_details)\<close> is not under
  \<^verbatim>\<open>src/\<close>. It makes a new cell object, with a body and a shape of its own and no
  mother or daughter yet.
\<close>

definition Cell_init :: "('a, 'd) env \<Rightarrow> 'd \<Rightarrow> 'a sim \<Rightarrow> ref \<times> 'a sim" where
  "Cell_init K d s =
     (let (a, lp, bd) = new_Cell K d;
          r = next_ref s;
          b = next_ref s + 1;
          p = next_ref s + 2
      in (r,
          s\<lparr>body_heap := (body_heap s)(b := bd),
            shape_body := (shape_body s)(p := b),
            cell_heap := (cell_heap s)(r :=
              \<lparr>body = b, shape = p, lysis_p = lp, mother = None, daughter = None,
               cell_t = None, attrs = a\<rparr>),
            next_ref := next_ref s + 3\<rparr>))"

text \<open>\<^verbatim>\<open>len(daughter_details)\<close>: 2 for the pair of body and shape.\<close>

definition len_details :: "('a, 'd) env \<Rightarrow> 'd option \<Rightarrow> nat" where
  "len_details K res = (case res of None \<Rightarrow> 2 | Some d \<Rightarrow> details_len K d)"

definition set_attrs :: "ref \<Rightarrow> 'a \<Rightarrow> 'a sim \<Rightarrow> 'a sim" where
  "set_attrs c a s = s\<lparr>cell_heap := (cell_heap s)(c := (cell_heap s c)\<lparr>attrs := a\<rparr>)\<rparr>"

definition set_daughter :: "ref \<Rightarrow> ref \<Rightarrow> 'a sim \<Rightarrow> 'a sim" where
  "set_daughter c d s = s\<lparr>cell_heap := (cell_heap s)(c := (cell_heap s c)\<lparr>daughter := Some d\<rparr>)\<rparr>"

definition set_mother :: "ref \<Rightarrow> ref \<Rightarrow> 'a sim \<Rightarrow> 'a sim" where
  "set_mother d c s = s\<lparr>cell_heap := (cell_heap s)(d := (cell_heap s d)\<lparr>mother := Some c\<rparr>)\<rparr>"

definition cell_adder :: "ref \<Rightarrow> 'a sim \<Rightarrow> 'a sim" where
  "cell_adder c s =
     space_add_shape (shape (cell_heap s c)) (space_add_body (body (cell_heap s c)) s)"

text \<open>
  The division branch of the loop body (lines 175 to 181): the daughter is appended to
  \<^verbatim>\<open>cells\<close>, the list the loop is iterating.
\<close>

definition divide :: "('a, 'd) env \<Rightarrow> ref \<Rightarrow> 'a sim \<Rightarrow> 'a sim" where
  "divide K c s =
     (let (daughter_details, s1) = pm_create K c s
      in if len_details K daughter_details > 2 then
           (case daughter_details of
              None \<Rightarrow> s1
            | Some d \<Rightarrow>
                (let (dr, s2) = Cell_init K d s1;
                     s3 = set_mother dr c (set_daughter c dr s2)
                 in s3\<lparr>cells := cells s3 @ [dr]\<rparr>))
         else s1)"

text \<open>The body of the loop (lines 173 to 186), the 150 settling steps included.\<close>

definition update_pm_cell :: "('a, 'd) env \<Rightarrow> ref \<Rightarrow> 'a sim \<Rightarrow> 'a sim" where
  "update_pm_cell K c s =
     (let s1 = set_attrs c (update_length K (attrs (cell_heap s c))) s;
          s2 = (if is_dividing K (attrs (cell_heap s1 c)) then divide K c s1
                else snd (pm_create K c s1));
          s3 = cell_adder c s2
      in steps K 150 (1 / 100) s3)"

text \<open>
  \<^verbatim>\<open>for cell in cells\<close> over the live list: Python's list iterator keeps an index and
  compares it with the current length at every step, so a daughter appended by the body
  is visited by the same loop. The loop need not end; \<open>None\<close> is a loop that does not.
\<close>

partial_function (option) update_pm_cells_from ::
  "('a, 'd) env \<Rightarrow> nat \<Rightarrow> 'a sim \<Rightarrow> 'a sim option" where
  "update_pm_cells_from K i s =
     (if i < length (cells s) then update_pm_cells_from K (Suc i) (update_pm_cell K (cells s ! i) s)
      else Some s)"

definition update_pm_cells :: "('a, 'd) env \<Rightarrow> 'a sim \<Rightarrow> 'a sim option" where
  "update_pm_cells K s = update_pm_cells_from K 0 s"

section \<open>\<^verbatim>\<open>update_cell_positions\<close>\<close>

definition update_cell_position :: "('a, 'd) env \<Rightarrow> ref \<Rightarrow> 'a sim \<Rightarrow> 'a sim" where
  "update_cell_position K c s =
     set_attrs c (update_position K (body_heap s (body (cell_heap s c))) (attrs (cell_heap s c))) s"

definition update_cell_positions :: "('a, 'd) env \<Rightarrow> 'a sim \<Rightarrow> 'a sim" where
  "update_cell_positions K s = fold (update_cell_position K) (cells s) s"

section \<open>\<^verbatim>\<open>deepcopy\<close>\<close>

text \<open>
  \<^verbatim>\<open>deepcopy(cells)\<close> builds new objects for everything reachable from the list,
  keeping the links between the copies. Here every object \<open>r\<close> allocated so far gets
  its copy at \<open>r + next_ref s\<close>, with its references moved the same way; the copies of
  objects that the list does not reach are never referenced.
\<close>

definition moved_cell :: "nat \<Rightarrow> 'a cell \<Rightarrow> 'a cell" where
  "moved_cell n c =
     c\<lparr>body := body c + n, shape := shape c + n,
       mother := map_option (\<lambda>r. r + n) (mother c),
       daughter := map_option (\<lambda>r. r + n) (daughter c)\<rparr>"

definition deepcopy :: "ref list \<Rightarrow> 'a sim \<Rightarrow> ref list \<times> 'a sim" where
  "deepcopy rs s =
     (let n = next_ref s
      in (map (\<lambda>r. r + n) rs,
          s\<lparr>body_heap := (\<lambda>r. if n \<le> r \<and> r < 2 * n then body_heap s (r - n) else body_heap s r),
            shape_body := (\<lambda>r. if n \<le> r \<and> r < 2 * n then shape_body s (r - n) + n else shape_body s r),
            cell_heap := (\<lambda>r. if n \<le> r \<and> r < 2 * n then moved_cell n (cell_heap s (r - n))
                              else cell_heap s r),
            next_ref := 2 * n\<rparr>))"

section \<open>\<^verbatim>\<open>step_and_update\<close>\<close>

text \<open>Lines 307 and 308.\<close>

definition record_frame :: "'a sim \<Rightarrow> 'a sim" where
  "record_frame s =
     (if x0 s > 1 then
        (let (snapshot, s1) = deepcopy (cells s) s
         in s1\<lparr>cell_timeseries := cell_timeseries s1 @ [snapshot]\<rparr>)
      else s)"

text \<open>\<^verbatim>\<open>pickle.dump\<close> writes the values of the objects, as they are when it is called.\<close>

definition pickle_timeseries :: "'a sim \<Rightarrow> 'a pickled" where
  "pickle_timeseries s = Timeseries (map (map (cell_heap s)) (cell_timeseries s))"

definition pickle_space :: "'a sim \<Rightarrow> 'a pickled" where
  "pickle_space s = Space (map (body_heap s) (space_bodies s)) (map (shape_body s) (space_shapes s))"

text \<open>Lines 309 to 317: the final frame writes both files and returns before the counter moves.\<close>

definition finish_frame :: "int \<Rightarrow> string \<Rightarrow> 'a sim \<Rightarrow> 'a sim" where
  "finish_frame sim_length save_dir s =
     (if x0 s = sim_length - 1 then
        s\<lparr>files := files s @ [(save_dir @ ''/cell_timeseries.p'', pickle_timeseries s),
                              (save_dir @ ''/space_timeseries.p'', pickle_space s)],
          app_exit := True\<rparr>
      else s\<lparr>x0 := x0 s + 1\<rparr>)"

definition step_and_update ::
  "('a, 'd) env \<Rightarrow> real \<Rightarrow> int \<Rightarrow> real \<Rightarrow> int \<Rightarrow> string \<Rightarrow> 'a sim \<Rightarrow> 'a sim option" where
  "step_and_update K dt phys_iters ylim sim_length save_dir s =
     (case update_pm_cells K (wipe_space (remove_cells_pass K dt ylim (remove_shapes_pass K dt ylim s))) of
        None \<Rightarrow> None
      | Some s4 \<Rightarrow>
          Some (finish_frame sim_length save_dir
                  (record_frame (update_cell_positions K (steps K (nat phys_iters) dt s4)))))"

section \<open>\<^verbatim>\<open>run_simulation\<close>\<close>

datatype error = ZeroDivisionError

text \<open>The arguments of \<^verbatim>\<open>run_simulation\<close>, under their names.\<close>

record run_args =
  trench_length :: real
  trench_width :: real
  cell_max_length :: real
  cell_width :: real
  sim_length :: int
  pix_mic_conv :: real
  gravity :: real
  phys_iters :: int
  max_length_var :: real
  width_var :: real
  save_dir :: string
  resize_amount :: real
  lysis_p_arg :: real
  show_window :: bool

text \<open>
  A store with no object of the run in it and an empty space (\<^verbatim>\<open>create_space()\<close>), with
  \<^verbatim>\<open>x = [0]\<close>, \<^verbatim>\<open>cell_timeseries = []\<close> and no cell yet. The addresses not yet allocated
  hold a fixed cell and body that nothing reads.
\<close>

definition create_space :: "'a cell \<Rightarrow> 'a sim" where
  "create_space c =
     \<lparr>body_heap = (\<lambda>_. \<lparr>body_type = 0, position_y = 0\<rparr>), shape_body = (\<lambda>_. 0),
      cell_heap = (\<lambda>_. c), next_ref = 0, space_bodies = [], space_shapes = [], calls = [],
      cells = [], cell_timeseries = [], x0 = 0, historic_cells = [], draws_used = 0,
      files = [], app_exit = False\<rparr>"

text \<open>
  Modelled from the spec: \<^verbatim>\<open>trench_creator\<close> is not under \<^verbatim>\<open>src/\<close>. For each body of
  the trench it adds the body and its shape to the space.
\<close>

definition add_segment :: "pm_body \<Rightarrow> 'a sim \<Rightarrow> 'a sim" where
  "add_segment bd s =
     (let b = next_ref s; p = Suc (next_ref s)
      in space_add_shape p (space_add_body b
           (s\<lparr>body_heap := (body_heap s)(b := bd), shape_body := (shape_body s)(p := b),
              next_ref := next_ref s + 2\<rparr>)))"

text \<open>Lines 61 to 120: the space, the trench, the first cell and the lists of the run.\<close>

definition initial_state :: "('a, 'd) env \<Rightarrow> run_args \<Rightarrow> real \<Rightarrow> 'a sim" where
  "initial_state K A scale_factor =
     (let (a, bd) = first_Cell K
            [cell_max_length A * 0.5 * scale_factor, cell_width A * scale_factor,
             cell_max_length A * scale_factor, cell_max_length A * scale_factor,
             max_length_var A * sqrt scale_factor, width_var A * sqrt scale_factor,
             cell_width A * scale_factor];
          s = fold add_segment
                (trench_creator K (trench_width A * scale_factor) (trench_length A * scale_factor))
                (create_space \<lparr>body = 0, shape = 0, lysis_p = lysis_p_arg A, mother = None,
                   daughter = None, cell_t = None, attrs = a\<rparr>);
          cell1 = next_ref s; b = next_ref s + 1; p = next_ref s + 2
      in s\<lparr>body_heap := (body_heap s)(b := bd), shape_body := (shape_body s)(p := b),
           cell_heap := (cell_heap s)(cell1 :=
             \<lparr>body = b, shape = p, lysis_p = lysis_p_arg A, mother = None, daughter = None,
              cell_t = None, attrs = a\<rparr>),
           next_ref := next_ref s + 3, cells := [cell1], historic_cells := [cell1]\<rparr>)"

text \<open>Lines 127 to 131: \<^verbatim>\<open>for _ in range(n): step_and_update(...)\<close>\<close>

fun headless ::
  "('a, 'd) env \<Rightarrow> nat \<Rightarrow> real \<Rightarrow> int \<Rightarrow> real \<Rightarrow> int \<Rightarrow> string \<Rightarrow> 'a sim \<Rightarrow> 'a sim option" where
  "headless K 0 dt iters ylim len dir s = Some s"
| "headless K (Suc n) dt iters ylim len dir s =
     (case step_and_update K dt iters ylim len dir s of
        None \<Rightarrow> None
      | Some s' \<Rightarrow> headless K n dt iters ylim len dir s')"

text \<open>
  Lines 122 to 125: the pyglet clock calls \<^verbatim>\<open>step_and_update\<close>, with the time it
  reports as \<^verbatim>\<open>dt\<close>, until \<^verbatim>\<open>pyglet.app.exit()\<close> has been called; \<open>k\<close> counts the
  calls. (Closing the window from the keyboard is an input from outside and is not
  modelled.)
\<close>

partial_function (option) app_run ::
  "('a, 'd) env \<Rightarrow> nat \<Rightarrow> int \<Rightarrow> real \<Rightarrow> int \<Rightarrow> string \<Rightarrow> 'a sim \<Rightarrow> 'a sim option" where
  "app_run K k iters ylim len dir s =
     (case step_and_update K (clock K k) iters ylim len dir s of
        None \<Rightarrow> None
      | Some s' \<Rightarrow> if app_exit s' then Some s' else app_run K (Suc k) iters ylim len dir s')"

text \<open>Lines 134 to 136: every cell of a recorded frame is stamped with the frame's index.\<close>

definition set_t :: "nat \<Rightarrow> ref \<Rightarrow> 'a sim \<Rightarrow> 'a sim" where
  "set_t frame c s = s\<lparr>cell_heap := (cell_heap s)(c := (cell_heap s c)\<lparr>cell_t := Some frame\<rparr>)\<rparr>"

definition stamp_frames :: "'a sim \<Rightarrow> 'a sim" where
  "stamp_frames s =
     fold (\<lambda>(frame, cs). fold (set_t frame) cs) (enumerate 0 (cell_timeseries s)) s"

text \<open>
  \<^verbatim>\<open>run_simulation\<close>. \<^verbatim>\<open>1 / pix_mic_conv\<close> raises at zero. The gravity is a setting of
  the physics engine, which is a parameter here. The final state holds what the function
  returns: \<^verbatim>\<open>cell_timeseries\<close>, the space and \<^verbatim>\<open>historic_cells\<close>.
\<close>

definition run_simulation :: "('a, 'd) env \<Rightarrow> run_args \<Rightarrow> (error + 'a sim) option" where
  "run_simulation K A =
     (if pix_mic_conv A = 0 then Some (Inl ZeroDivisionError)
      else
        (let dt = 1 / 20;
             scale_factor = (1 / pix_mic_conv A) * resize_amount A;
             ylim = trench_length A * scale_factor;
             s = initial_state K A scale_factor
         in case (if show_window A
                  then app_run K 0 (phys_iters A) ylim (sim_length A) (save_dir A) s
                  else headless K (nat (sim_length A + 2)) dt (phys_iters A) ylim (sim_length A)
                         (save_dir A) s) of
              None \<Rightarrow> None
            | Some s' \<Rightarrow> Some (Inr (stamp_frames s'))))"

section \<open>Notions used by the properties\<close>

text \<open>A body is dynamic when its \<^verbatim>\<open>body_type\<close> is 0, as \<^verbatim>\<open>wipe_space\<close> tests it.\<close>

definition dynamic :: "'a sim \<Rightarrow> ref \<Rightarrow> bool" where
  "dynamic s b \<longleftrightarrow> body_type (body_heap s b) = 0"

text \<open>
  The space is aligned when its bodies and shapes correspond by position: the i-th shape
  is attached to the i-th body. Adding and removing bodies and shapes in pairs, as this
  module does, keeps a space aligned.
\<close>

definition aligned :: "'a sim \<Rightarrow> bool" where
  "aligned s \<longleftrightarrow> map (shape_body s) (space_shapes s) = space_bodies s"

text \<open>What one visit of \<^verbatim>\<open>update_pm_cells\<close> calls on the space: the registration of a
  body and a shape, then 150 steps of 1/100.\<close>

definition settle_block :: "ref \<times> ref \<Rightarrow> event list" where
  "settle_block bp = Add_body (fst bp) # Add_shape (snd bp) # replicate 150 (Step (1 / 100))"

text \<open>
  Following the specification's words (collect, then apply): the growth and division
  pass over the cells that are live when the pass starts, so that a daughter appended
  by the pass is not visited by it. It is compared with \<open>update_pm_cells\<close> below.
\<close>

definition update_pm_cells_snapshot :: "('a, 'd) env \<Rightarrow> 'a sim \<Rightarrow> 'a sim" where
  "update_pm_cells_snapshot K s = fold (update_pm_cell K) (cells s) s"

text \<open>
  The store is well formed for the recorded frames when every live cell and every cell
  of a recorded frame has been allocated, and no cell of a recorded frame is live.
\<close>

definition frames_apart :: "'a sim \<Rightarrow> bool" where
  "frames_apart s \<longleftrightarrow>
     (\<forall>c \<in> set (cells s). c < next_ref s) \<and>
     (\<forall>fr \<in> set (cell_timeseries s). \<forall>r \<in> set fr. r < next_ref s \<and> r \<notin> set (cells s))"

text \<open>
  \<open>touches_live s s'\<close>: from \<open>s\<close> to \<open>s'\<close> no cell object was written but the live
  cells of \<open>s\<close> and objects allocated since, and the live cells of \<open>s'\<close> are live cells
  of \<open>s\<close> or allocated since.
\<close>

definition touches_live :: "'a sim \<Rightarrow> 'a sim \<Rightarrow> bool" where
  "touches_live s s' \<longleftrightarrow>
     next_ref s \<le> next_ref s' \<and>
     (\<forall>r. r < next_ref s \<and> r \<notin> set (cells s) \<longrightarrow> cell_heap s' r = cell_heap s r) \<and>
     (\<forall>c \<in> set (cells s'). c \<in> set (cells s) \<or> next_ref s \<le> c \<and> c < next_ref s')"

text \<open>
  Conditions under which the growth and division pass ends. \<open>newborn_rests K\<close>: a cell
  just built from a daughter descriptor does not divide at its first growth step, so it
  does not divide in the pass that creates it. \<open>allocated s\<close>: every live cell is an
  object of the store. \<open>newborn\<close> and \<open>newborns_behind\<close> state the invariant of the
  loop: from index \<open>n0\<close> on, the cells not yet visited are newborn and occur once.
\<close>

definition newborn_rests :: "('a, 'd) env \<Rightarrow> bool" where
  "newborn_rests K \<longleftrightarrow> (\<forall>d. \<not> is_dividing K (update_length K (fst (new_Cell K d))))"

definition allocated :: "'a sim \<Rightarrow> bool" where
  "allocated s \<longleftrightarrow> (\<forall>c \<in> set (cells s). c < next_ref s)"

definition newborn :: "('a, 'd) env \<Rightarrow> 'a sim \<Rightarrow> ref \<Rightarrow> bool" where
  "newborn K s r \<longleftrightarrow> (\<exists>d. attrs (cell_heap s r) = fst (new_Cell K d))"

definition newborns_behind :: "('a, 'd) env \<Rightarrow> nat \<Rightarrow> nat \<Rightarrow> 'a sim \<Rightarrow> bool" where
  "newborns_behind K n0 i s \<longleftrightarrow>
     allocated s \<and>
     (\<forall>j. n0 \<le> j \<and> i \<le> j \<and> j < length (cells s) \<longrightarrow>
        newborn K s (cells s ! j) \<and> (\<forall>k < j. cells s ! k \<noteq> cells s ! j))"

text \<open>The lengths of the time series written to \<^verbatim>\<open>cell_timeseries.p\<close>, in the order of the writes.\<close>

fun timeseries_writes :: "(string \<times> 'a pickled) list \<Rightarrow> nat list" where
  "timeseries_writes [] = []"
| "timeseries_writes ((name, Timeseries ts) # fs) = length ts # timeseries_writes fs"
| "timeseries_writes ((name, Space bs ps) # fs) = timeseries_writes fs"

section \<open>Example runs\<close>

text \<open>
  A small instance of the parameters: the physics leaves every body where it is, every
  draw of \<^verbatim>\<open>norm.rvs()\<close> is 0, a cell's attribute is its length, which grows by one per
  frame; a cell divides at length 4 into two cells of length 2. \<open>calm\<close> is the same
  with cells that never divide.
\<close>

definition demo_body :: "real \<Rightarrow> pm_body" where
  "demo_body y = \<lparr>body_type = 0, position_y = y\<rparr>"

definition demo :: "(nat, nat) env" where
  "demo =
     \<lparr>physics = (\<lambda>dt bs ps h. h), rvs = (\<lambda>n. 0), quantile = (\<lambda>p. 0),
      update_length = Suc, is_dividing = (\<lambda>a. 4 \<le> a),
      create_pm_cell = (\<lambda>a. if 4 \<le> a then (a - 2, demo_body 50, Some (a - 2))
                             else (a, demo_body 50, None)),
      details_len = (\<lambda>d. 3), new_Cell = (\<lambda>d. (2, 0, demo_body 60)),
      update_position = (\<lambda>b a. a),
      trench_creator = (\<lambda>w l. [\<lparr>body_type = 2, position_y = 0\<rparr>]),
      first_Cell = (\<lambda>args. (0, demo_body 50)), clock = (\<lambda>k. 1 / 20)\<rparr>"

definition calm :: "(nat, nat) env" where
  "calm = demo\<lparr>is_dividing := (\<lambda>a. False)\<rparr>"

text \<open>A state with one live cell, at height \<open>y\<close>, of lysis probability \<open>p\<close> and length \<open>a\<close>.\<close>

definition demo_cell :: "real \<Rightarrow> nat \<Rightarrow> nat cell" where
  "demo_cell p a =
     \<lparr>body = 1, shape = 2, lysis_p = p, mother = None, daughter = None, cell_t = None, attrs = a\<rparr>"

definition lone_cell :: "real \<Rightarrow> real \<Rightarrow> nat \<Rightarrow> nat sim" where
  "lone_cell y p a =
     (create_space (demo_cell p a))
       \<lparr>body_heap := (\<lambda>_. demo_body y), shape_body := (\<lambda>_. 1), next_ref := 3, cells := [0],
         historic_cells := [0]\<rparr>"

text \<open>Two live cells, 0 and 3, neither dividing.\<close>

definition two_cells :: "nat sim" where
  "two_cells = (lone_cell 50 0 0)\<lparr>next_ref := 6, cells := [0, 3]\<rparr>"

text \<open>A space holding one dynamic body, 1, that carries two shapes, 2 and 4.\<close>

definition shared_body_space :: "nat sim" where
  "shared_body_space = (lone_cell 50 0 0)\<lparr>next_ref := 5, space_bodies := [1], space_shapes := [2, 4]\<rparr>"

text \<open>An aligned space: a static body 0 with its shape 5, the dynamic body 1 with its shape 2.\<close>

definition trench_and_cell :: "nat sim" where
  "trench_and_cell =
     (lone_cell 50 0 0)
       \<lparr>body_heap := (\<lambda>b. if b = 0 then \<lparr>body_type = 2, position_y = 0\<rparr> else demo_body 50),
         shape_body := (\<lambda>p. if p = 5 then 0 else 1), next_ref := 6,
         space_bodies := [0, 1], space_shapes := [5, 2]\<rparr>"

text \<open>The arguments of a headless run of \<open>n\<close> frames.\<close>

definition demo_args :: "int \<Rightarrow> run_args" where
  "demo_args n =
     \<lparr>trench_length = 100, trench_width = 10, cell_max_length = 6, cell_width = 1,
      sim_length = n, pix_mic_conv = 1, gravity = 0, phys_iters = 1, max_length_var = 0,
      width_var = 0, save_dir = ''out'', resize_amount = 1, lysis_p_arg = 0,
      show_window = False\<rparr>"

section \<open>The space and its calls\<close>

lemma space_step_fields [simp]:
  "cells (space_step K dt s) = cells s"
  "space_bodies (space_step K dt s) = space_bodies s"
  "space_shapes (space_step K dt s) = space_shapes s"
  "shape_body (space_step K dt s) = shape_body s"
  "cell_heap (space_step K dt s) = cell_heap s"
  "next_ref (space_step K dt s) = next_ref s"
  "cell_timeseries (space_step K dt s) = cell_timeseries s"
  "x0 (space_step K dt s) = x0 s"
  "historic_cells (space_step K dt s) = historic_cells s"
  "draws_used (space_step K dt s) = draws_used s"
  "files (space_step K dt s) = files s"
  "app_exit (space_step K dt s) = app_exit s"
  "calls (space_step K dt s) = calls s @ [Step dt]"
  by (simp_all add: space_step_def)

lemma steps_fields [simp]:
  "cells (steps K n dt s) = cells s"
  "space_bodies (steps K n dt s) = space_bodies s"
  "space_shapes (steps K n dt s) = space_shapes s"
  "shape_body (steps K n dt s) = shape_body s"
  "cell_heap (steps K n dt s) = cell_heap s"
  "next_ref (steps K n dt s) = next_ref s"
  "cell_timeseries (steps K n dt s) = cell_timeseries s"
  "x0 (steps K n dt s) = x0 s"
  "historic_cells (steps K n dt s) = historic_cells s"
  "draws_used (steps K n dt s) = draws_used s"
  "files (steps K n dt s) = files s"
  "app_exit (steps K n dt s) = app_exit s"
  "calls (steps K n dt s) = calls s @ replicate n (Step dt)"
  by (induction n arbitrary: s; simp add: replicate_app_Cons_same)+

lemma fold_remove1_filter_aux:
  "\<forall>z \<in> set zs. \<not> P z \<Longrightarrow> fold remove1 (filter P xs) (zs @ xs) = zs @ filter (\<lambda>x. \<not> P x) xs"
proof (induction xs arbitrary: zs)
  case Nil
  then show ?case by simp
next
  case (Cons x xs)
  show ?case
  proof (cases "P x")
    case True
    with Cons.prems have "x \<notin> set zs" by auto
    then have "remove1 x (zs @ x # xs) = zs @ xs" by (simp add: remove1_append)
    with True Cons.IH [OF Cons.prems] show ?thesis by simp
  next
    case False
    with Cons.prems have "\<forall>z \<in> set (zs @ [x]). \<not> P z" by auto
    from Cons.IH [OF this] False show ?thesis by simp
  qed
qed

lemma fold_remove1_filter: "fold remove1 (filter P xs) xs = filter (\<lambda>x. \<not> P x) xs"
  using fold_remove1_filter_aux [of "[]" P xs] by simp

lemma fold_remove_and_step:
  "space_shapes (fold (remove_and_step K dt) bps s) = fold remove1 (map snd bps) (space_shapes s)"
  "space_bodies (fold (remove_and_step K dt) bps s) = fold remove1 (map fst bps) (space_bodies s)"
  "calls (fold (remove_and_step K dt) bps s) =
     calls s @ concat (map (\<lambda>bp. [Remove_body (fst bp), Remove_shape (snd bp), Step dt]) bps)"
  by (induction bps arbitrary: s;
      simp add: remove_and_step_def space_remove_shape_def space_remove_body_def)+

section \<open>The removal of out-of-bounds shapes\<close>

lemma mset_fold_remove1: "mset (fold remove1 xs ys) = mset ys - mset xs"
  by (induction xs arbitrary: ys) simp_all

lemma remove_shapes_pass_calls:
  "calls (remove_shapes_pass K dt ylim s) =
     calls s @ concat (map (\<lambda>p. [Remove_body (shape_body s p), Remove_shape p, Step dt])
                        (filter (\<lambda>p. out_of_bounds ylim (shape_y s p)) (space_shapes s)))"
  by (simp add: remove_shapes_pass_def shapes_to_remove_def fold_remove_and_step comp_def)

lemma remove_shapes_pass_shapes:
  "space_shapes (remove_shapes_pass K dt ylim s) =
     filter (\<lambda>p. \<not> out_of_bounds ylim (shape_y s p)) (space_shapes s)"
  by (simp add: remove_shapes_pass_def shapes_to_remove_def fold_remove_and_step comp_def
      fold_remove1_filter)

lemma remove_shapes_pass_bodies:
  "mset (space_bodies (remove_shapes_pass K dt ylim s)) =
     mset (space_bodies s) -
     mset (map (shape_body s) (filter (\<lambda>p. out_of_bounds ylim (shape_y s p)) (space_shapes s)))"
  by (simp add: remove_shapes_pass_def shapes_to_remove_def fold_remove_and_step comp_def
      mset_fold_remove1)

section \<open>Properties of \<^verbatim>\<open>wipe_space\<close>\<close>

lemma fold_space_remove_body:
  "space_bodies (fold space_remove_body bs s) = fold remove1 bs (space_bodies s)"
  "space_shapes (fold space_remove_body bs s) = space_shapes s"
  "body_heap (fold space_remove_body bs s) = body_heap s"
  "shape_body (fold space_remove_body bs s) = shape_body s"
  "cells (fold space_remove_body bs s) = cells s"
  "cell_heap (fold space_remove_body bs s) = cell_heap s"
  "calls (fold space_remove_body bs s) = calls s @ map Remove_body bs"
  by (induction bs arbitrary: s; simp add: space_remove_body_def)+

lemma fold_space_remove_shape:
  "space_shapes (fold space_remove_shape ps s) = fold remove1 ps (space_shapes s)"
  "space_bodies (fold space_remove_shape ps s) = space_bodies s"
  "body_heap (fold space_remove_shape ps s) = body_heap s"
  "shape_body (fold space_remove_shape ps s) = shape_body s"
  "cells (fold space_remove_shape ps s) = cells s"
  "cell_heap (fold space_remove_shape ps s) = cell_heap s"
  "calls (fold space_remove_shape ps s) = calls s @ map Remove_shape ps"
  by (induction ps arbitrary: s; simp add: space_remove_shape_def)+

lemma zip_map_self: "zip (map f ps) ps = map (\<lambda>p. (f p, p)) ps"
  by (induction ps) simp_all

lemma wipe_space_heaps [simp]:
  "body_heap (wipe_space s) = body_heap s"
  "shape_body (wipe_space s) = shape_body s"
  "cells (wipe_space s) = cells s"
  "cell_heap (wipe_space s) = cell_heap s"
  by (simp_all add: wipe_space_def Let_def fold_space_remove_body fold_space_remove_shape)

lemma wipe_space_aligned:
  assumes "aligned s"
  shows "space_bodies (wipe_space s) = filter (\<lambda>b. \<not> dynamic s b) (space_bodies s)"
    and "space_shapes (wipe_space s) = filter (\<lambda>p. \<not> dynamic s (shape_body s p)) (space_shapes s)"
proof -
  let ?f = "shape_body s"
  let ?ps = "space_shapes s"
  from assms have bs: "space_bodies s = map ?f ?ps" by (simp add: aligned_def)
  have sel: "filter (\<lambda>(b, poly). body_type (body_heap s b) = 0) (zip (space_bodies s) ?ps) =
      map (\<lambda>p. (?f p, p)) (filter (\<lambda>p. dynamic s (?f p)) ?ps)"
    by (simp add: bs zip_map_self filter_map comp_def dynamic_def)
  have bodies: "map fst (map (\<lambda>p. (?f p, p)) (filter (\<lambda>p. dynamic s (?f p)) ?ps)) =
      filter (dynamic s) (space_bodies s)"
    by (simp add: bs filter_map comp_def)
  show "space_bodies (wipe_space s) = filter (\<lambda>b. \<not> dynamic s b) (space_bodies s)"
    unfolding wipe_space_def Let_def sel fold_space_remove_shape fold_space_remove_body bodies
    by (rule fold_remove1_filter)
  show "space_shapes (wipe_space s) = filter (\<lambda>p. \<not> dynamic s (shape_body s p)) (space_shapes s)"
    unfolding wipe_space_def Let_def sel fold_space_remove_shape fold_space_remove_body
    by (simp add: comp_def fold_remove1_filter)
qed

lemma wipe_space_keeps_aligned:
  assumes "aligned s"
  shows "aligned (wipe_space s)"
proof -
  from assms have bs: "space_bodies s = map (shape_body s) (space_shapes s)"
    by (simp add: aligned_def)
  have "map (shape_body s) (filter (\<lambda>p. \<not> dynamic s (shape_body s p)) (space_shapes s)) =
      filter (\<lambda>b. \<not> dynamic s b) (map (shape_body s) (space_shapes s))"
    by (simp add: filter_map comp_def)
  with bs show ?thesis
    by (simp add: aligned_def wipe_space_aligned [OF assms])
qed

lemma aligned_trench_and_cell: "aligned trench_and_cell"
  by (simp add: aligned_def trench_and_cell_def lone_cell_def create_space_def)

section \<open>The removal of cells\<close>

lemma remove_cell_fields [simp]:
  "cells (remove_cell K dt c s) = remove1 c (cells s)"
  "cell_heap (remove_cell K dt c s) = cell_heap s"
  "next_ref (remove_cell K dt c s) = next_ref s"
  "shape_body (remove_cell K dt c s) = shape_body s"
  "space_bodies (remove_cell K dt c s) = space_bodies s"
  "space_shapes (remove_cell K dt c s) = space_shapes s"
  "cell_timeseries (remove_cell K dt c s) = cell_timeseries s"
  "x0 (remove_cell K dt c s) = x0 s"
  "historic_cells (remove_cell K dt c s) = historic_cells s"
  "draws_used (remove_cell K dt c s) = draws_used s"
  "files (remove_cell K dt c s) = files s"
  "app_exit (remove_cell K dt c s) = app_exit s"
  by (simp_all add: remove_cell_def remove1_idem)

lemma fold_remove_cell_fields [simp]:
  "cells (fold (remove_cell K dt) rs s) = fold remove1 rs (cells s)"
  "cell_heap (fold (remove_cell K dt) rs s) = cell_heap s"
  "next_ref (fold (remove_cell K dt) rs s) = next_ref s"
  "shape_body (fold (remove_cell K dt) rs s) = shape_body s"
  "space_bodies (fold (remove_cell K dt) rs s) = space_bodies s"
  "space_shapes (fold (remove_cell K dt) rs s) = space_shapes s"
  "cell_timeseries (fold (remove_cell K dt) rs s) = cell_timeseries s"
  "x0 (fold (remove_cell K dt) rs s) = x0 s"
  "historic_cells (fold (remove_cell K dt) rs s) = historic_cells s"
  "draws_used (fold (remove_cell K dt) rs s) = draws_used s"
  "files (fold (remove_cell K dt) rs s) = files s"
  "app_exit (fold (remove_cell K dt) rs s) = app_exit s"
  by (induction rs arbitrary: s; simp)+

lemma remove_cells_pass_fields [simp]:
  "cell_heap (remove_cells_pass K dt ylim s) = cell_heap s"
  "next_ref (remove_cells_pass K dt ylim s) = next_ref s"
  "shape_body (remove_cells_pass K dt ylim s) = shape_body s"
  "space_bodies (remove_cells_pass K dt ylim s) = space_bodies s"
  "space_shapes (remove_cells_pass K dt ylim s) = space_shapes s"
  "cell_timeseries (remove_cells_pass K dt ylim s) = cell_timeseries s"
  "x0 (remove_cells_pass K dt ylim s) = x0 s"
  "historic_cells (remove_cells_pass K dt ylim s) = historic_cells s"
  "files (remove_cells_pass K dt ylim s) = files s"
  "app_exit (remove_cells_pass K dt ylim s) = app_exit s"
  by (simp_all add: remove_cells_pass_def case_prod_beta)

lemma remove_cells_pass_cells:
  "cells (remove_cells_pass K dt ylim s) =
     fold remove1 (fst (cells_to_remove K ylim s (length (cells s)) (draws_used s) (cells s))) (cells s)"
  by (simp add: remove_cells_pass_def case_prod_beta)

lemma cells_to_remove_unguarded:
  "len \<le> 1 \<Longrightarrow>
     fst (cells_to_remove K ylim s len n cs) = filter (\<lambda>c. out_of_bounds ylim (cell_y s c)) cs"
  by (induction cs arbitrary: n) (simp_all add: case_prod_beta)

section \<open>The loop of \<^verbatim>\<open>update_pm_cells\<close>\<close>

lemma pm_create_fields [simp]:
  "cells (snd (pm_create K c s)) = cells s"
  "space_bodies (snd (pm_create K c s)) = space_bodies s"
  "space_shapes (snd (pm_create K c s)) = space_shapes s"
  "calls (snd (pm_create K c s)) = calls s"
  "cell_timeseries (snd (pm_create K c s)) = cell_timeseries s"
  "x0 (snd (pm_create K c s)) = x0 s"
  "historic_cells (snd (pm_create K c s)) = historic_cells s"
  "draws_used (snd (pm_create K c s)) = draws_used s"
  "files (snd (pm_create K c s)) = files s"
  "app_exit (snd (pm_create K c s)) = app_exit s"
  "next_ref (snd (pm_create K c s)) = next_ref s + 2"
  by (simp_all add: pm_create_def Let_def case_prod_beta)

lemma Cell_init_fields [simp]:
  "fst (Cell_init K d s) = next_ref s"
  "cells (snd (Cell_init K d s)) = cells s"
  "space_bodies (snd (Cell_init K d s)) = space_bodies s"
  "space_shapes (snd (Cell_init K d s)) = space_shapes s"
  "calls (snd (Cell_init K d s)) = calls s"
  "cell_timeseries (snd (Cell_init K d s)) = cell_timeseries s"
  "x0 (snd (Cell_init K d s)) = x0 s"
  "historic_cells (snd (Cell_init K d s)) = historic_cells s"
  "draws_used (snd (Cell_init K d s)) = draws_used s"
  "files (snd (Cell_init K d s)) = files s"
  "app_exit (snd (Cell_init K d s)) = app_exit s"
  "next_ref (snd (Cell_init K d s)) = next_ref s + 3"
  by (simp_all add: Cell_init_def Let_def case_prod_beta)

lemma set_attrs_fields [simp]:
  "cells (set_attrs c a s) = cells s"
  "space_bodies (set_attrs c a s) = space_bodies s"
  "space_shapes (set_attrs c a s) = space_shapes s"
  "body_heap (set_attrs c a s) = body_heap s"
  "shape_body (set_attrs c a s) = shape_body s"
  "calls (set_attrs c a s) = calls s"
  "next_ref (set_attrs c a s) = next_ref s"
  "historic_cells (set_attrs c a s) = historic_cells s"
  "cell_timeseries (set_attrs c a s) = cell_timeseries s"
  "x0 (set_attrs c a s) = x0 s"
  "files (set_attrs c a s) = files s"
  "app_exit (set_attrs c a s) = app_exit s"
  "draws_used (set_attrs c a s) = draws_used s"
  by (simp_all add: set_attrs_def)

lemma set_daughter_fields [simp]:
  "cells (set_daughter c d s) = cells s"
  "space_bodies (set_daughter c d s) = space_bodies s"
  "space_shapes (set_daughter c d s) = space_shapes s"
  "body_heap (set_daughter c d s) = body_heap s"
  "shape_body (set_daughter c d s) = shape_body s"
  "calls (set_daughter c d s) = calls s"
  "next_ref (set_daughter c d s) = next_ref s"
  "historic_cells (set_daughter c d s) = historic_cells s"
  "cell_timeseries (set_daughter c d s) = cell_timeseries s"
  "x0 (set_daughter c d s) = x0 s"
  "files (set_daughter c d s) = files s"
  "app_exit (set_daughter c d s) = app_exit s"
  "draws_used (set_daughter c d s) = draws_used s"
  by (simp_all add: set_daughter_def)

lemma set_mother_fields [simp]:
  "cells (set_mother d c s) = cells s"
  "space_bodies (set_mother d c s) = space_bodies s"
  "space_shapes (set_mother d c s) = space_shapes s"
  "body_heap (set_mother d c s) = body_heap s"
  "shape_body (set_mother d c s) = shape_body s"
  "calls (set_mother d c s) = calls s"
  "next_ref (set_mother d c s) = next_ref s"
  "historic_cells (set_mother d c s) = historic_cells s"
  "cell_timeseries (set_mother d c s) = cell_timeseries s"
  "x0 (set_mother d c s) = x0 s"
  "files (set_mother d c s) = files s"
  "app_exit (set_mother d c s) = app_exit s"
  "draws_used (set_mother d c s) = draws_used s"
  by (simp_all add: set_mother_def)

lemma divide_fields [simp]:
  "space_bodies (divide K c s) = space_bodies s"
  "space_shapes (divide K c s) = space_shapes s"
  "calls (divide K c s) = calls s"
  "cell_timeseries (divide K c s) = cell_timeseries s"
  "x0 (divide K c s) = x0 s"
  "historic_cells (divide K c s) = historic_cells s"
  "draws_used (divide K c s) = draws_used s"
  "files (divide K c s) = files s"
  "app_exit (divide K c s) = app_exit s"
  by (simp_all add: divide_def Let_def case_prod_beta split: option.splits)

lemma divide_cells:
  "cells (divide K c s) =
     (case fst (pm_create K c s) of
        Some d \<Rightarrow> if details_len K d > 2 then cells s @ [next_ref s + 2] else cells s
      | None \<Rightarrow> cells s)"
  by (simp add: divide_def Let_def case_prod_beta len_details_def split: option.splits)

lemma cell_adder_fields [simp]:
  "cells (cell_adder c s) = cells s"
  "cell_heap (cell_adder c s) = cell_heap s"
  "body_heap (cell_adder c s) = body_heap s"
  "shape_body (cell_adder c s) = shape_body s"
  "next_ref (cell_adder c s) = next_ref s"
  "space_bodies (cell_adder c s) = space_bodies s @ [body (cell_heap s c)]"
  "space_shapes (cell_adder c s) = space_shapes s @ [shape (cell_heap s c)]"
  "calls (cell_adder c s) =
     calls s @ [Add_body (body (cell_heap s c)), Add_shape (shape (cell_heap s c))]"
  "cell_timeseries (cell_adder c s) = cell_timeseries s"
  "x0 (cell_adder c s) = x0 s"
  "historic_cells (cell_adder c s) = historic_cells s"
  "draws_used (cell_adder c s) = draws_used s"
  "files (cell_adder c s) = files s"
  "app_exit (cell_adder c s) = app_exit s"
  by (simp_all add: cell_adder_def space_add_shape_def space_add_body_def)

lemma update_pm_cell_fields [simp]:
  "cell_timeseries (update_pm_cell K c s) = cell_timeseries s"
  "x0 (update_pm_cell K c s) = x0 s"
  "historic_cells (update_pm_cell K c s) = historic_cells s"
  "draws_used (update_pm_cell K c s) = draws_used s"
  "files (update_pm_cell K c s) = files s"
  "app_exit (update_pm_cell K c s) = app_exit s"
  by (simp_all add: update_pm_cell_def Let_def)

lemma update_pm_cell_calls:
  "\<exists>b p. calls (update_pm_cell K c s) = calls s @ settle_block (b, p)"
  by (simp add: update_pm_cell_def Let_def settle_block_def)

lemma update_pm_cell_space:
  "length (space_bodies (update_pm_cell K c s)) = Suc (length (space_bodies s))"
  by (simp add: update_pm_cell_def Let_def)

lemma update_pm_cell_cells:
  "cells (update_pm_cell K c s) = cells s \<or> cells (update_pm_cell K c s) = cells s @ [next_ref s + 2]"
  by (simp add: update_pm_cell_def Let_def divide_cells split: option.splits)

lemma loop_done: "\<not> i < length (cells s) \<Longrightarrow> update_pm_cells_from K i s = Some s"
  by (subst update_pm_cells_from.simps) simp

lemma loop_step:
  "i < length (cells s) \<Longrightarrow>
     update_pm_cells_from K i s = update_pm_cells_from K (Suc i) (update_pm_cell K (cells s ! i) s)"
  by (subst update_pm_cells_from.simps) simp

lemmas loop_induct = update_pm_cells_from.raw_induct [rotated 1, consumes 1, case_names step]

lemma loop_unchanged:
  "update_pm_cells_from K i s = Some s' \<Longrightarrow>
     historic_cells s' = historic_cells s \<and> cell_timeseries s' = cell_timeseries s \<and>
     x0 s' = x0 s \<and> files s' = files s \<and> app_exit s' = app_exit s \<and>
     draws_used s' = draws_used s"
proof (induction rule: loop_induct)
  case (step f K i s s')
  then show ?case by (fastforce split: if_splits)
qed

lemma loop_prefix:
  "update_pm_cells_from K i s = Some s' \<Longrightarrow> \<exists>ds. cells s' = cells s @ ds"
proof (induction rule: loop_induct)
  case (step f K i s s')
  show ?case
  proof (cases "i < length (cells s)")
    case True
    with step(2) have "f K (Suc i) (update_pm_cell K (cells s ! i) s) = Some s'" by simp
    from step(1) [OF this] obtain ds where
      "cells s' = cells (update_pm_cell K (cells s ! i) s) @ ds" by blast
    with update_pm_cell_cells [of K "cells s ! i" s] show ?thesis by auto
  next
    case False
    with step show ?thesis by simp
  qed
qed

lemma loop_calls:
  "update_pm_cells_from K i s = Some s' \<Longrightarrow> i \<le> length (cells s) \<Longrightarrow>
     length (cells s) \<le> length (cells s') \<and>
     (\<exists>bps. length bps = length (cells s') - i \<and> calls s' = calls s @ concat (map settle_block bps))"
proof (induction rule: loop_induct)
  case (step f K i s s')
  show ?case
  proof (cases "i < length (cells s)")
    case True
    let ?s1 = "update_pm_cell K (cells s ! i) s"
    from True step(2) have run: "f K (Suc i) ?s1 = Some s'" by simp
    from update_pm_cell_cells [of K "cells s ! i" s] True
    have le: "Suc i \<le> length (cells ?s1)" "length (cells s) \<le> length (cells ?s1)" by auto
    from step(1) [OF run le(1)] obtain bps where
      bps: "length bps = length (cells s') - Suc i"
           "calls s' = calls ?s1 @ concat (map settle_block bps)"
      and len: "length (cells ?s1) \<le> length (cells s')" by blast
    from update_pm_cell_calls [of K "cells s ! i" s] obtain b p where
      bp: "calls ?s1 = calls s @ settle_block (b, p)" by blast
    from le len have "Suc i \<le> length (cells s')" by simp
    with bps bp have "length ((b, p) # bps) = length (cells s') - i \<and>
        calls s' = calls s @ concat (map settle_block ((b, p) # bps))" by simp
    with le len show ?thesis by (metis order_trans)
  next
    case False
    with step show ?thesis by simp
  qed
qed

section \<open>Passes without division, and the pass over the cells live at entry\<close>

lemma never_dividing_cells:
  "\<forall>a. \<not> is_dividing K a \<Longrightarrow> cells (update_pm_cell K c s) = cells s"
  by (simp add: update_pm_cell_def Let_def)

lemma never_dividing_loop:
  assumes "\<forall>a. \<not> is_dividing K a"
  shows "update_pm_cells_from K i s = Some (fold (update_pm_cell K) (drop i (cells s)) s)"
proof (induction "length (cells s) - i" arbitrary: i s)
  case 0
  then show ?case by (simp add: loop_done)
next
  case (Suc n)
  then have lt: "i < length (cells s)" by simp
  let ?s1 = "update_pm_cell K (cells s ! i) s"
  have c: "cells ?s1 = cells s" using assms by (rule never_dividing_cells)
  with Suc have "n = length (cells ?s1) - Suc i" by simp
  from Suc(1) [OF this] have
    "update_pm_cells_from K (Suc i) ?s1 = Some (fold (update_pm_cell K) (drop (Suc i) (cells s)) ?s1)"
    by (simp add: c)
  with lt show ?case by (simp add: loop_step Cons_nth_drop_Suc [symmetric])
qed

lemma never_dividing_update:
  "\<forall>a. \<not> is_dividing K a \<Longrightarrow> update_pm_cells K s = Some (update_pm_cells_snapshot K s)"
  by (simp add: update_pm_cells_def update_pm_cells_snapshot_def never_dividing_loop)

lemma fold_update_space:
  "length (space_bodies (fold (update_pm_cell K) cs s)) = length (space_bodies s) + length cs"
  by (induction cs arbitrary: s) (simp_all add: update_pm_cell_space)

lemma loop_space:
  "update_pm_cells_from K i s = Some s' \<Longrightarrow> i \<le> length (cells s) \<Longrightarrow>
     length (cells s) \<le> length (cells s') \<and>
     length (space_bodies s') = length (space_bodies s) + (length (cells s') - i)"
proof (induction rule: loop_induct)
  case (step f K i s s')
  show ?case
  proof (cases "i < length (cells s)")
    case True
    let ?s1 = "update_pm_cell K (cells s ! i) s"
    from True step(2) have run: "f K (Suc i) ?s1 = Some s'" by simp
    from update_pm_cell_cells [of K "cells s ! i" s] True
    have le: "Suc i \<le> length (cells ?s1)" "length (cells s) \<le> length (cells ?s1)" by auto
    from step(1) [OF run le(1)] have
      A: "length (cells ?s1) \<le> length (cells s')" and
      B: "length (space_bodies s') = length (space_bodies ?s1) + (length (cells s') - Suc i)"
      by simp_all
    have C: "length (space_bodies ?s1) = Suc (length (space_bodies s))"
      by (rule update_pm_cell_space)
    from A B C le True show ?thesis by arith
  next
    case False
    with step show ?thesis by simp
  qed
qed

lemma loop_without_daughters:
  "update_pm_cells_from K i s = Some s' \<Longrightarrow>
     (\<exists>ds. cells s' = cells s @ ds) \<and>
     (cells s' = cells s \<longrightarrow> s' = fold (update_pm_cell K) (drop i (cells s)) s)"
proof (induction rule: loop_induct)
  case (step f K i s s')
  show ?case
  proof (cases "i < length (cells s)")
    case True
    let ?s1 = "update_pm_cell K (cells s ! i) s"
    from True step(2) have run: "f K (Suc i) ?s1 = Some s'" by simp
    from step(1) [OF run] obtain ds where
      ds: "cells s' = cells ?s1 @ ds"
      and eq: "cells s' = cells ?s1 \<Longrightarrow> s' = fold (update_pm_cell K) (drop (Suc i) (cells ?s1)) ?s1"
      by blast
    from update_pm_cell_cells [of K "cells s ! i" s]
    consider "cells ?s1 = cells s" | "cells ?s1 = cells s @ [next_ref s + 2]" by blast
    then show ?thesis
    proof cases
      case 1
      with ds eq True show ?thesis by (auto simp: Cons_nth_drop_Suc [symmetric])
    next
      case 2
      with ds show ?thesis by auto
    qed
  next
    case False
    with step show ?thesis by simp
  qed
qed

lemma update_agrees_with_snapshot:
  assumes "update_pm_cells K s = Some s'"
  shows "s' = update_pm_cells_snapshot K s \<longleftrightarrow> cells s' = cells s"
proof
  assume eq: "s' = update_pm_cells_snapshot K s"
  from assms have "length (space_bodies s') = length (space_bodies s) + length (cells s')"
    using loop_space [of K 0 s s'] by (simp add: update_pm_cells_def)
  with eq have "length (cells s') = length (cells s)"
    by (simp add: update_pm_cells_snapshot_def fold_update_space)
  moreover from assms obtain ds where "cells s' = cells s @ ds"
    using loop_prefix [of K 0 s s'] by (auto simp: update_pm_cells_def)
  ultimately show "cells s' = cells s" by simp
next
  assume "cells s' = cells s"
  with assms loop_without_daughters [of K 0 s s'] show "s' = update_pm_cells_snapshot K s"
    by (simp add: update_pm_cells_def update_pm_cells_snapshot_def)
qed

section \<open>Facts about the example runs\<close>

lemma calm_never_divides: "\<forall>a. \<not> is_dividing calm a"
  by (simp add: calm_def)

lemma demo_steps [simp]: "body_heap (steps demo n dt s) = body_heap s"
  by (induction n arbitrary: s) (simp_all add: space_step_def demo_def)

lemma calm_steps [simp]: "body_heap (steps calm n dt s) = body_heap s"
  by (induction n arbitrary: s) (simp_all add: space_step_def demo_def calm_def)

lemmas demo_defs = lone_cell_def create_space_def demo_cell_def demo_body_def demo_def calm_def
  update_pm_cell_def divide_def pm_create_def Cell_init_def set_attrs_def set_daughter_def
  set_mother_def len_details_def Let_def

lemma two_cells_update:
  "update_pm_cells calm two_cells = Some (update_pm_cells_snapshot calm two_cells)"
  using calm_never_divides by (rule never_dividing_update)

lemma count_list_replicate_same [simp]: "count_list (replicate n x) x = n"
  by (induction n) simp_all

lemma ripe_first: "cells (update_pm_cell demo 0 (lone_cell 50 0 3)) = [0, 5]"
  by (simp add: demo_defs)

lemma ripe_second: "cells (update_pm_cell demo 5 (update_pm_cell demo 0 (lone_cell 50 0 3))) = [0, 5]"
  by (simp add: demo_defs)

lemma ripe_update:
  "update_pm_cells demo (lone_cell 50 0 3) =
     Some (update_pm_cell demo 5 (update_pm_cell demo 0 (lone_cell 50 0 3)))"
proof -
  have "update_pm_cells demo (lone_cell 50 0 3) =
      update_pm_cells_from demo (Suc 0) (update_pm_cell demo 0 (lone_cell 50 0 3))"
    unfolding update_pm_cells_def by (subst loop_step) (simp_all add: lone_cell_def create_space_def)
  also have "\<dots> = update_pm_cells_from demo (Suc (Suc 0))
      (update_pm_cell demo 5 (update_pm_cell demo 0 (lone_cell 50 0 3)))"
    by (subst loop_step) (simp_all add: ripe_first)
  also have "\<dots> = Some (update_pm_cell demo 5 (update_pm_cell demo 0 (lone_cell 50 0 3)))"
    by (subst loop_done) (simp_all add: ripe_second)
  finally show ?thesis .
qed



section \<open>What a frame leaves unchanged\<close>

lemma fold_remove_and_step_fields [simp]:
  "cells (fold (remove_and_step K dt) bps s) = cells s"
  "cell_heap (fold (remove_and_step K dt) bps s) = cell_heap s"
  "next_ref (fold (remove_and_step K dt) bps s) = next_ref s"
  "shape_body (fold (remove_and_step K dt) bps s) = shape_body s"
  "cell_timeseries (fold (remove_and_step K dt) bps s) = cell_timeseries s"
  "x0 (fold (remove_and_step K dt) bps s) = x0 s"
  "historic_cells (fold (remove_and_step K dt) bps s) = historic_cells s"
  "draws_used (fold (remove_and_step K dt) bps s) = draws_used s"
  "files (fold (remove_and_step K dt) bps s) = files s"
  "app_exit (fold (remove_and_step K dt) bps s) = app_exit s"
  by (induction bps arbitrary: s;
      simp add: remove_and_step_def space_remove_shape_def space_remove_body_def)+

lemma remove_shapes_pass_fields [simp]:
  "cells (remove_shapes_pass K dt ylim s) = cells s"
  "cell_heap (remove_shapes_pass K dt ylim s) = cell_heap s"
  "next_ref (remove_shapes_pass K dt ylim s) = next_ref s"
  "shape_body (remove_shapes_pass K dt ylim s) = shape_body s"
  "cell_timeseries (remove_shapes_pass K dt ylim s) = cell_timeseries s"
  "x0 (remove_shapes_pass K dt ylim s) = x0 s"
  "historic_cells (remove_shapes_pass K dt ylim s) = historic_cells s"
  "draws_used (remove_shapes_pass K dt ylim s) = draws_used s"
  "files (remove_shapes_pass K dt ylim s) = files s"
  "app_exit (remove_shapes_pass K dt ylim s) = app_exit s"
  by (simp_all add: remove_shapes_pass_def)

lemma fold_space_remove_body_more [simp]:
  "next_ref (fold space_remove_body bs s) = next_ref s"
  "cell_timeseries (fold space_remove_body bs s) = cell_timeseries s"
  "x0 (fold space_remove_body bs s) = x0 s"
  "historic_cells (fold space_remove_body bs s) = historic_cells s"
  "draws_used (fold space_remove_body bs s) = draws_used s"
  "files (fold space_remove_body bs s) = files s"
  "app_exit (fold space_remove_body bs s) = app_exit s"
  by (induction bs arbitrary: s; simp add: space_remove_body_def)+

lemma fold_space_remove_shape_more [simp]:
  "next_ref (fold space_remove_shape ps s) = next_ref s"
  "cell_timeseries (fold space_remove_shape ps s) = cell_timeseries s"
  "x0 (fold space_remove_shape ps s) = x0 s"
  "historic_cells (fold space_remove_shape ps s) = historic_cells s"
  "draws_used (fold space_remove_shape ps s) = draws_used s"
  "files (fold space_remove_shape ps s) = files s"
  "app_exit (fold space_remove_shape ps s) = app_exit s"
  by (induction ps arbitrary: s; simp add: space_remove_shape_def)+

lemma wipe_space_fields [simp]:
  "next_ref (wipe_space s) = next_ref s"
  "cell_timeseries (wipe_space s) = cell_timeseries s"
  "x0 (wipe_space s) = x0 s"
  "historic_cells (wipe_space s) = historic_cells s"
  "draws_used (wipe_space s) = draws_used s"
  "files (wipe_space s) = files s"
  "app_exit (wipe_space s) = app_exit s"
  by (simp_all add: wipe_space_def Let_def)

lemma fold_update_cell_position_fields [simp]:
  "cells (fold (update_cell_position K) cs s) = cells s"
  "next_ref (fold (update_cell_position K) cs s) = next_ref s"
  "body_heap (fold (update_cell_position K) cs s) = body_heap s"
  "shape_body (fold (update_cell_position K) cs s) = shape_body s"
  "space_bodies (fold (update_cell_position K) cs s) = space_bodies s"
  "space_shapes (fold (update_cell_position K) cs s) = space_shapes s"
  "calls (fold (update_cell_position K) cs s) = calls s"
  "cell_timeseries (fold (update_cell_position K) cs s) = cell_timeseries s"
  "x0 (fold (update_cell_position K) cs s) = x0 s"
  "historic_cells (fold (update_cell_position K) cs s) = historic_cells s"
  "draws_used (fold (update_cell_position K) cs s) = draws_used s"
  "files (fold (update_cell_position K) cs s) = files s"
  "app_exit (fold (update_cell_position K) cs s) = app_exit s"
  by (induction cs arbitrary: s; simp add: update_cell_position_def)+

lemma update_cell_positions_fields [simp]:
  "cells (update_cell_positions K s) = cells s"
  "next_ref (update_cell_positions K s) = next_ref s"
  "body_heap (update_cell_positions K s) = body_heap s"
  "shape_body (update_cell_positions K s) = shape_body s"
  "space_bodies (update_cell_positions K s) = space_bodies s"
  "space_shapes (update_cell_positions K s) = space_shapes s"
  "calls (update_cell_positions K s) = calls s"
  "cell_timeseries (update_cell_positions K s) = cell_timeseries s"
  "x0 (update_cell_positions K s) = x0 s"
  "historic_cells (update_cell_positions K s) = historic_cells s"
  "draws_used (update_cell_positions K s) = draws_used s"
  "files (update_cell_positions K s) = files s"
  "app_exit (update_cell_positions K s) = app_exit s"
  by (simp_all add: update_cell_positions_def)

lemma record_frame_fields [simp]:
  "cells (record_frame s) = cells s"
  "space_bodies (record_frame s) = space_bodies s"
  "space_shapes (record_frame s) = space_shapes s"
  "calls (record_frame s) = calls s"
  "x0 (record_frame s) = x0 s"
  "historic_cells (record_frame s) = historic_cells s"
  "draws_used (record_frame s) = draws_used s"
  "files (record_frame s) = files s"
  "app_exit (record_frame s) = app_exit s"
  by (simp_all add: record_frame_def deepcopy_def Let_def)

lemma record_frame_timeseries:
  "cell_timeseries (record_frame s) =
     (if x0 s > 1 then cell_timeseries s @ [map (\<lambda>r. r + next_ref s) (cells s)] else cell_timeseries s)"
  by (simp add: record_frame_def deepcopy_def Let_def)

lemma finish_frame_fields [simp]:
  "cells (finish_frame len dir s) = cells s"
  "cell_heap (finish_frame len dir s) = cell_heap s"
  "body_heap (finish_frame len dir s) = body_heap s"
  "shape_body (finish_frame len dir s) = shape_body s"
  "next_ref (finish_frame len dir s) = next_ref s"
  "space_bodies (finish_frame len dir s) = space_bodies s"
  "space_shapes (finish_frame len dir s) = space_shapes s"
  "calls (finish_frame len dir s) = calls s"
  "cell_timeseries (finish_frame len dir s) = cell_timeseries s"
  "historic_cells (finish_frame len dir s) = historic_cells s"
  "draws_used (finish_frame len dir s) = draws_used s"
  by (simp_all add: finish_frame_def)

lemma step_and_update_Some:
  "step_and_update K dt iters ylim len dir s = Some s' \<Longrightarrow>
     \<exists>s4. update_pm_cells K (wipe_space (remove_cells_pass K dt ylim (remove_shapes_pass K dt ylim s)))
            = Some s4 \<and>
          s' = finish_frame len dir (record_frame (update_cell_positions K (steps K (nat iters) dt s4)))"
  by (auto simp: step_and_update_def split: option.splits)

lemma step_historic_cells:
  assumes "step_and_update K dt iters ylim len dir s = Some s'"
  shows "historic_cells s' = historic_cells s"
proof -
  from step_and_update_Some [OF assms] obtain s4 where
    u: "update_pm_cells K (wipe_space (remove_cells_pass K dt ylim (remove_shapes_pass K dt ylim s))) = Some s4"
    and s': "s' = finish_frame len dir (record_frame (update_cell_positions K (steps K (nat iters) dt s4)))"
    by blast
  from u have "historic_cells s4 = historic_cells s"
    using loop_unchanged [of K 0 _ s4] by (simp add: update_pm_cells_def)
  with s' show ?thesis by simp
qed

section \<open>Frames without removal\<close>

lemma demo_division:
  assumes "cells s = [0]" "attrs (cell_heap s 0) = 3" "next_ref s = 3"
  shows "update_pm_cells demo s = Some (update_pm_cell demo 5 (update_pm_cell demo 0 s))"
    and "cells (update_pm_cell demo 5 (update_pm_cell demo 0 s)) = [0, 5]"
proof -
  have first: "cells (update_pm_cell demo 0 s) = [0, 5]"
    using assms by (simp add: demo_defs)
  show second: "cells (update_pm_cell demo 5 (update_pm_cell demo 0 s)) = [0, 5]"
    using assms by (simp add: demo_defs)
  have "update_pm_cells demo s = update_pm_cells_from demo (Suc 0) (update_pm_cell demo 0 s)"
    unfolding update_pm_cells_def by (subst loop_step) (simp_all add: assms)
  also have "\<dots> = update_pm_cells_from demo (Suc (Suc 0))
      (update_pm_cell demo 5 (update_pm_cell demo 0 s))"
    by (subst loop_step) (simp_all add: first)
  also have "\<dots> = Some (update_pm_cell demo 5 (update_pm_cell demo 0 s))"
    by (subst loop_done) (simp_all add: second)
  finally show "update_pm_cells demo s = Some (update_pm_cell demo 5 (update_pm_cell demo 0 s))" .
qed

lemma remove_shapes_pass_empty: "space_shapes s = [] \<Longrightarrow> remove_shapes_pass K dt ylim s = s"
  by (simp add: remove_shapes_pass_def shapes_to_remove_def)



lemma ripe_passes:
  "wipe_space (remove_cells_pass demo (1 / 20) 100 (remove_shapes_pass demo (1 / 20) 100 (lone_cell 50 0 3)))
     = (lone_cell 50 0 3)\<lparr>draws_used := 1\<rparr>"
  by (simp add: remove_shapes_pass_empty remove_cells_pass_def wipe_space_def lone_cell_def
      create_space_def out_of_bounds_def cell_y_def shape_y_def demo_cell_def demo_body_def norm_ppf_def)

lemma ripe_step:
  "step_and_update demo (1 / 20) 1 100 10 ''out'' (lone_cell 50 0 3) =
     Some (finish_frame 10 ''out'' (record_frame (update_cell_positions demo (steps demo (nat 1) (1 / 20)
       (update_pm_cell demo 5 (update_pm_cell demo 0 ((lone_cell 50 0 3)\<lparr>draws_used := 1\<rparr>)))))))"
proof -
  have "update_pm_cells demo ((lone_cell 50 0 3)\<lparr>draws_used := 1\<rparr>) =
      Some (update_pm_cell demo 5 (update_pm_cell demo 0 ((lone_cell 50 0 3)\<lparr>draws_used := 1\<rparr>)))"
    by (rule demo_division) (simp_all add: lone_cell_def create_space_def demo_cell_def)
  then show ?thesis
    unfolding step_and_update_def ripe_passes by simp
qed


section \<open>The frame counter\<close>

lemma timeseries_writes_append:
  "timeseries_writes (fs @ gs) = timeseries_writes fs @ timeseries_writes gs"
  by (induction fs rule: timeseries_writes.induct) simp_all

lemma finish_frame_counter:
  "x0 (finish_frame len dir s) = (if x0 s = len - 1 then x0 s else x0 s + 1)"
  "app_exit (finish_frame len dir s) = (app_exit s \<or> x0 s = len - 1)"
  "files (finish_frame len dir s) =
     (if x0 s = len - 1
      then files s @ [(dir @ ''/cell_timeseries.p'', pickle_timeseries s),
                      (dir @ ''/space_timeseries.p'', pickle_space s)]
      else files s)"
  by (simp_all add: finish_frame_def)

lemma finish_frame_writes:
  "timeseries_writes (files (finish_frame len dir s)) =
     timeseries_writes (files s) @ (if x0 s = len - 1 then [length (cell_timeseries s)] else [])"
  by (simp add: finish_frame_counter timeseries_writes_append pickle_timeseries_def pickle_space_def)

lemma step_counter:
  assumes "step_and_update K dt iters ylim len dir s = Some s'"
  shows "x0 s' = (if x0 s = len - 1 then x0 s else x0 s + 1)"
    and "length (cell_timeseries s') = length (cell_timeseries s) + (if x0 s > 1 then 1 else 0)"
    and "timeseries_writes (files s') =
           timeseries_writes (files s) @ (if x0 s = len - 1 then [length (cell_timeseries s')] else [])"
    and "map fst (files s') =
           map fst (files s) @
           (if x0 s = len - 1 then [dir @ ''/cell_timeseries.p'', dir @ ''/space_timeseries.p''] else [])"
    and "app_exit s' = (app_exit s \<or> x0 s = len - 1)"
proof -
  from step_and_update_Some [OF assms] obtain s4 where
    u: "update_pm_cells K (wipe_space (remove_cells_pass K dt ylim (remove_shapes_pass K dt ylim s))) = Some s4"
    and s': "s' = finish_frame len dir (record_frame (update_cell_positions K (steps K (nat iters) dt s4)))"
    by blast
  from u have same: "cell_timeseries s4 = cell_timeseries s" "x0 s4 = x0 s" "files s4 = files s"
    "app_exit s4 = app_exit s"
    using loop_unchanged [of K 0 _ s4] by (simp_all add: update_pm_cells_def)
  show "x0 s' = (if x0 s = len - 1 then x0 s else x0 s + 1)"
    by (simp add: s' finish_frame_counter same)
  show ts: "length (cell_timeseries s') = length (cell_timeseries s) + (if x0 s > 1 then 1 else 0)"
    by (simp add: s' record_frame_timeseries same)
  show "timeseries_writes (files s') =
      timeseries_writes (files s) @ (if x0 s = len - 1 then [length (cell_timeseries s')] else [])"
    by (simp add: s' finish_frame_writes same)
  show "map fst (files s') =
      map fst (files s) @
      (if x0 s = len - 1 then [dir @ ''/cell_timeseries.p'', dir @ ''/space_timeseries.p''] else [])"
    by (simp add: s' finish_frame_counter same)
  show "app_exit s' = (app_exit s \<or> x0 s = len - 1)"
    by (simp add: s' finish_frame_counter same)
qed

lemma never_dividing_step:
  "\<forall>a. \<not> is_dividing K a \<Longrightarrow>
     step_and_update K dt iters ylim len dir s =
       Some (finish_frame len dir (record_frame (update_cell_positions K (steps K (nat iters) dt
         (update_pm_cells_snapshot K
            (wipe_space (remove_cells_pass K dt ylim (remove_shapes_pass K dt ylim s))))))))"
  by (simp add: step_and_update_def never_dividing_update)

lemma never_dividing_step_returns:
  "\<forall>a. \<not> is_dividing K a \<Longrightarrow> \<exists>s'. step_and_update K dt iters ylim len dir s = Some s'"
  by (simp add: never_dividing_step)

section \<open>The length of the recorded series\<close>

lemma headless_add:
  "headless K (m + n) dt iters ylim len dir s =
     (case headless K m dt iters ylim len dir s of
        None \<Rightarrow> None
      | Some s1 \<Rightarrow> headless K n dt iters ylim len dir s1)"
  by (induction m arbitrary: s) (simp_all split: option.splits)

lemma headless_warm_up:
  "headless K k dt iters ylim len dir s = Some s' \<Longrightarrow> 0 \<le> x0 s \<Longrightarrow> x0 s + int k \<le> len - 1 \<Longrightarrow>
   length (cell_timeseries s) = nat (x0 s - 2) \<Longrightarrow>
     x0 s' = x0 s + int k \<and> length (cell_timeseries s') = nat (x0 s' - 2) \<and>
     timeseries_writes (files s') = timeseries_writes (files s)"
proof (induction k arbitrary: s)
  case 0
  then show ?case by simp
next
  case (Suc k)
  from Suc.prems(1) obtain s1 where
    s1: "step_and_update K dt iters ylim len dir s = Some s1"
    and rest: "headless K k dt iters ylim len dir s1 = Some s'"
    by (auto split: option.splits)
  from Suc.prems have ne: "x0 s \<noteq> len - 1" by simp
  from step_counter [OF s1] ne Suc.prems have
    a: "x0 s1 = x0 s + 1" and b: "length (cell_timeseries s1) = nat (x0 s1 - 2)"
    and c: "timeseries_writes (files s1) = timeseries_writes (files s)"
    by auto
  from Suc.IH [OF rest] a b c Suc.prems show ?case by simp
qed

lemma headless_final:
  "headless K k dt iters ylim len dir s = Some s' \<Longrightarrow> x0 s = len - 1 \<Longrightarrow>
     x0 s' = len - 1 \<and>
     length (cell_timeseries s') = length (cell_timeseries s) + k * (if 3 \<le> len then 1 else 0) \<and>
     timeseries_writes (files s') =
       timeseries_writes (files s) @
       map (\<lambda>j. length (cell_timeseries s) + Suc j * (if 3 \<le> len then 1 else 0)) [0..<k]"
proof (induction k arbitrary: s)
  case 0
  then show ?case by simp
next
  case (Suc k)
  from Suc.prems(1) obtain s1 where
    s1: "step_and_update K dt iters ylim len dir s = Some s1"
    and rest: "headless K k dt iters ylim len dir s1 = Some s'"
    by (auto split: option.splits)
  from step_counter [OF s1] Suc.prems(2) have
    a: "x0 s1 = len - 1"
    and b: "length (cell_timeseries s1) = length (cell_timeseries s) + (if 3 \<le> len then 1 else 0)"
    and c: "timeseries_writes (files s1) = timeseries_writes (files s) @ [length (cell_timeseries s1)]"
    by auto
  have shift: "map (\<lambda>j. length (cell_timeseries s) + Suc j * (if 3 \<le> len then 1 else 0)) [0..<Suc k] =
      length (cell_timeseries s1) #
      map (\<lambda>j. length (cell_timeseries s1) + Suc j * (if 3 \<le> len then 1 else 0)) [0..<k]"
    by (simp add: b upt_conv_Cons map_Suc_upt [symmetric] del: upt_Suc)
  from Suc.IH [OF rest a] b c show ?case
    by (simp only: shift) simp
qed

lemma add_segment_fields [simp]:
  "cells (add_segment bd s) = cells s"
  "cell_heap (add_segment bd s) = cell_heap s"
  "cell_timeseries (add_segment bd s) = cell_timeseries s"
  "x0 (add_segment bd s) = x0 s"
  "historic_cells (add_segment bd s) = historic_cells s"
  "draws_used (add_segment bd s) = draws_used s"
  "files (add_segment bd s) = files s"
  "app_exit (add_segment bd s) = app_exit s"
  by (simp_all add: add_segment_def Let_def space_add_shape_def space_add_body_def)

lemma fold_add_segment_fields [simp]:
  "cells (fold add_segment bds s) = cells s"
  "cell_heap (fold add_segment bds s) = cell_heap s"
  "cell_timeseries (fold add_segment bds s) = cell_timeseries s"
  "x0 (fold add_segment bds s) = x0 s"
  "historic_cells (fold add_segment bds s) = historic_cells s"
  "draws_used (fold add_segment bds s) = draws_used s"
  "files (fold add_segment bds s) = files s"
  "app_exit (fold add_segment bds s) = app_exit s"
  by (induction bds arbitrary: s; simp)+

lemma initial_state_fields [simp]:
  "cell_timeseries (initial_state K A sf) = []"
  "x0 (initial_state K A sf) = 0"
  "files (initial_state K A sf) = []"
  "app_exit (initial_state K A sf) = False"
  "historic_cells (initial_state K A sf) = cells (initial_state K A sf)"
  "length (cells (initial_state K A sf)) = 1"
  by (simp_all add: initial_state_def Let_def case_prod_beta create_space_def)

lemma fold_set_t_fields [simp]:
  "cells (fold (set_t frame) cs s) = cells s"
  "cell_timeseries (fold (set_t frame) cs s) = cell_timeseries s"
  "x0 (fold (set_t frame) cs s) = x0 s"
  "historic_cells (fold (set_t frame) cs s) = historic_cells s"
  "files (fold (set_t frame) cs s) = files s"
  "app_exit (fold (set_t frame) cs s) = app_exit s"
  by (induction cs arbitrary: s; simp add: set_t_def)+

lemma fold_stamp_fields [simp]:
  "cells (fold (\<lambda>(frame, cs). fold (set_t frame) cs) fs s) = cells s"
  "cell_timeseries (fold (\<lambda>(frame, cs). fold (set_t frame) cs) fs s) = cell_timeseries s"
  "x0 (fold (\<lambda>(frame, cs). fold (set_t frame) cs) fs s) = x0 s"
  "historic_cells (fold (\<lambda>(frame, cs). fold (set_t frame) cs) fs s) = historic_cells s"
  "files (fold (\<lambda>(frame, cs). fold (set_t frame) cs) fs s) = files s"
  "app_exit (fold (\<lambda>(frame, cs). fold (set_t frame) cs) fs s) = app_exit s"
  by (induction fs arbitrary: s; simp add: case_prod_beta)+

lemma stamp_frames_fields [simp]:
  "cells (stamp_frames s) = cells s"
  "cell_timeseries (stamp_frames s) = cell_timeseries s"
  "x0 (stamp_frames s) = x0 s"
  "historic_cells (stamp_frames s) = historic_cells s"
  "files (stamp_frames s) = files s"
  "app_exit (stamp_frames s) = app_exit s"
  by (simp_all add: stamp_frames_def)

lemmas app_run_induct = app_run.raw_induct [rotated 1, consumes 1, case_names step]

lemma app_run_result:
  "app_run K k iters ylim len dir s = Some s' \<Longrightarrow> 0 \<le> x0 s \<Longrightarrow> x0 s \<le> len - 1 \<Longrightarrow>
   length (cell_timeseries s) = nat (x0 s - 2) \<Longrightarrow> \<not> app_exit s \<Longrightarrow>
     x0 s' = len - 1 \<and> length (cell_timeseries s') = nat (len - 2) \<and>
     timeseries_writes (files s') = timeseries_writes (files s) @ [nat (len - 2)]"
proof (induction rule: app_run_induct)
  case (step f K k iters ylim len dir s s')
  from step(2) obtain s1 where
    s1: "step_and_update K (clock K k) iters ylim len dir s = Some s1"
    and rest: "(if app_exit s1 then Some s1 else f K (Suc k) iters ylim len dir s1) = Some s'"
    by (auto split: option.splits)
  show ?case
  proof (cases "x0 s = len - 1")
    case True
    with step_counter [OF s1] have "app_exit s1" by simp
    with rest have "s' = s1" by simp
    with step_counter [OF s1] True step(3-5) show ?thesis by auto
  next
    case False
    with step_counter [OF s1] step(3-6) have
      a: "x0 s1 = x0 s + 1" and b: "length (cell_timeseries s1) = nat (x0 s1 - 2)"
      and c: "timeseries_writes (files s1) = timeseries_writes (files s)"
      and d: "\<not> app_exit s1"
      by auto
    from d rest have run: "f K (Suc k) iters ylim len dir s1 = Some s'" by simp
    from a step(3,4) False have "0 \<le> x0 s1" "x0 s1 \<le> len - 1" by simp_all
    from step(1) [OF run this b d] c show ?thesis by simp
  qed
qed

lemma headless_run:
  assumes "headless K (nat (len + 2)) dt iters ylim len dir s = Some s'"
    and "2 \<le> len" "x0 s = 0" "cell_timeseries s = []" "files s = []"
  shows "length (cell_timeseries s') = (if len = 2 then 0 else nat len)"
    and "timeseries_writes (files s') =
           (if len = 2 then [0, 0, 0] else [nat (len - 2), nat (len - 1), nat len])"
proof -
  from assms(2) have split: "nat (len + 2) = nat (len - 1) + 3" by simp
  from assms(1) obtain s1 where
    warm: "headless K (nat (len - 1)) dt iters ylim len dir s = Some s1"
    and final: "headless K 3 dt iters ylim len dir s1 = Some s'"
    unfolding split headless_add by (auto split: option.splits)
  from headless_warm_up [OF warm] assms(2-5) have
    s1: "x0 s1 = len - 1" "length (cell_timeseries s1) = nat (len - 3)"
    "timeseries_writes (files s1) = []"
    by simp_all
  from headless_final [OF final s1(1)] s1 assms(2)
  show "length (cell_timeseries s') = (if len = 2 then 0 else nat len)"
    and "timeseries_writes (files s') =
           (if len = 2 then [0, 0, 0] else [nat (len - 2), nat (len - 1), nat len])"
    by (auto simp: upt_conv_Cons nat_diff_distrib)
qed

lemma run_simulation_Inr:
  assumes "run_simulation K A = Some (Inr s')"
  shows "\<exists>s1 ylim. s' = stamp_frames s1 \<and>
     (if show_window A
      then app_run K 0 (phys_iters A) ylim (sim_length A) (save_dir A)
             (initial_state K A (1 / pix_mic_conv A * resize_amount A))
      else headless K (nat (sim_length A + 2)) (1 / 20) (phys_iters A) ylim (sim_length A) (save_dir A)
             (initial_state K A (1 / pix_mic_conv A * resize_amount A))) = Some s1"
  using assms by (auto simp: run_simulation_def Let_def split: if_splits option.splits)

lemma run_series:
  assumes "run_simulation K A = Some (Inr s')" and "2 \<le> sim_length A"
  shows "length (cell_timeseries s') =
           (if show_window A \<or> sim_length A = 2 then nat (sim_length A - 2) else nat (sim_length A)) \<and>
         timeseries_writes (files s') =
           (if show_window A then [nat (sim_length A - 2)]
            else if sim_length A = 2 then [0, 0, 0]
            else [nat (sim_length A - 2), nat (sim_length A - 1), nat (sim_length A)])"
proof -
  let ?s0 = "initial_state K A (1 / pix_mic_conv A * resize_amount A)"
  from run_simulation_Inr [OF assms(1)] obtain s1 ylim where
    s': "s' = stamp_frames s1"
    and run: "(if show_window A
      then app_run K 0 (phys_iters A) ylim (sim_length A) (save_dir A) ?s0
      else headless K (nat (sim_length A + 2)) (1 / 20) (phys_iters A) ylim (sim_length A) (save_dir A) ?s0)
      = Some s1"
    by blast
  show ?thesis
  proof (cases "show_window A")
    case True
    with run have "app_run K 0 (phys_iters A) ylim (sim_length A) (save_dir A) ?s0 = Some s1"
      by simp
    from app_run_result [OF this] assms(2) True s' show ?thesis by simp
  next
    case False
    with run have "headless K (nat (sim_length A + 2)) (1 / 20) (phys_iters A) ylim (sim_length A)
        (save_dir A) ?s0 = Some s1"
      by simp
    from headless_run [OF this assms(2)] False s' show ?thesis by simp
  qed
qed

section \<open>Recorded frames and live cells\<close>

lemma touches_live_refl: "touches_live s s"
  by (simp add: touches_live_def)

lemma touches_live_trans:
  assumes "touches_live s s1" and "touches_live s1 s2"
  shows "touches_live s s2"
  unfolding touches_live_def
proof (intro conjI allI ballI impI)
  from assms show "next_ref s \<le> next_ref s2" by (simp add: touches_live_def)
next
  fix r assume r: "r < next_ref s \<and> r \<notin> set (cells s)"
  with assms(1) have a: "cell_heap s1 r = cell_heap s r" "r < next_ref s1" "r \<notin> set (cells s1)"
    by (auto simp: touches_live_def)
  with assms(2) have "cell_heap s2 r = cell_heap s1 r" by (simp add: touches_live_def)
  with a show "cell_heap s2 r = cell_heap s r" by simp
next
  fix c assume "c \<in> set (cells s2)"
  with assms(2) have "c \<in> set (cells s1) \<or> next_ref s1 \<le> c \<and> c < next_ref s2"
    by (simp add: touches_live_def)
  with assms show "c \<in> set (cells s) \<or> next_ref s \<le> c \<and> c < next_ref s2"
    by (fastforce simp: touches_live_def)
qed

lemma touches_live_same:
  "next_ref s' = next_ref s \<Longrightarrow> cell_heap s' = cell_heap s \<Longrightarrow> set (cells s') \<subseteq> set (cells s) \<Longrightarrow>
     touches_live s s'"
  by (auto simp: touches_live_def)

lemma set_fold_remove1_subset: "set (fold remove1 rs cs) \<subseteq> set cs"
proof (induction rs arbitrary: cs)
  case Nil
  show ?case by simp
next
  case (Cons r rs)
  have "set (fold remove1 rs (remove1 r cs)) \<subseteq> set (remove1 r cs)" by (rule Cons.IH)
  also have "\<dots> \<subseteq> set cs" by (rule set_remove1_subset)
  finally show ?case by simp
qed

lemma touches_live_steps: "touches_live s (steps K n dt s)"
  by (rule touches_live_same) simp_all

lemma touches_live_remove_shapes: "touches_live s (remove_shapes_pass K dt ylim s)"
  by (rule touches_live_same) simp_all

lemma touches_live_remove_cells: "touches_live s (remove_cells_pass K dt ylim s)"
  by (rule touches_live_same) (simp_all add: remove_cells_pass_cells set_fold_remove1_subset)

lemma touches_live_wipe: "touches_live s (wipe_space s)"
  by (rule touches_live_same) simp_all

lemma update_pm_cell_heap:
  "r \<noteq> c \<Longrightarrow> r < next_ref s \<Longrightarrow> cell_heap (update_pm_cell K c s) r = cell_heap s r"
  by (simp add: update_pm_cell_def divide_def pm_create_def Cell_init_def set_attrs_def
      set_daughter_def set_mother_def Let_def case_prod_beta split: option.splits)

lemma update_pm_cell_next_ref:
  "(cells (update_pm_cell K c s) = cells s \<and> next_ref s \<le> next_ref (update_pm_cell K c s)) \<or>
   (cells (update_pm_cell K c s) = cells s @ [next_ref s + 2] \<and>
    next_ref (update_pm_cell K c s) = next_ref s + 5)"
  by (simp add: update_pm_cell_def divide_def pm_create_def Cell_init_def set_attrs_def
      set_daughter_def set_mother_def len_details_def Let_def case_prod_beta split: option.splits)

lemma touches_live_update_pm_cell:
  assumes "c \<in> set (cells s)"
  shows "touches_live s (update_pm_cell K c s)"
  unfolding touches_live_def
proof (intro conjI allI ballI impI)
  from update_pm_cell_next_ref [of K c s]
  show "next_ref s \<le> next_ref (update_pm_cell K c s)" by auto
next
  fix r assume "r < next_ref s \<and> r \<notin> set (cells s)"
  with assms have "r \<noteq> c" "r < next_ref s" by auto
  then show "cell_heap (update_pm_cell K c s) r = cell_heap s r" by (rule update_pm_cell_heap)
next
  fix d assume "d \<in> set (cells (update_pm_cell K c s))"
  with update_pm_cell_next_ref [of K c s]
  show "d \<in> set (cells s) \<or> next_ref s \<le> d \<and> d < next_ref (update_pm_cell K c s)" by auto
qed

lemma touches_live_loop:
  "update_pm_cells_from K i s = Some s' \<Longrightarrow> touches_live s s'"
proof (induction rule: loop_induct)
  case (step f K i s s')
  show ?case
  proof (cases "i < length (cells s)")
    case True
    with step(2) have "f K (Suc i) (update_pm_cell K (cells s ! i) s) = Some s'" by simp
    from step(1) [OF this] have "touches_live (update_pm_cell K (cells s ! i) s) s'" .
    moreover from True have "touches_live s (update_pm_cell K (cells s ! i) s)"
      by (intro touches_live_update_pm_cell) simp
    ultimately show ?thesis by (rule touches_live_trans [rotated])
  next
    case False
    with step(2) show ?thesis by (simp add: touches_live_refl)
  qed
qed

lemma fold_update_cell_position_heap:
  "r \<notin> set cs \<Longrightarrow> cell_heap (fold (update_cell_position K) cs s) r = cell_heap s r"
  by (induction cs arbitrary: s) (simp_all add: update_cell_position_def set_attrs_def)

lemma touches_live_update_positions: "touches_live s (update_cell_positions K s)"
  by (simp add: touches_live_def update_cell_positions_def fold_update_cell_position_heap)

lemma record_frame_store:
  "next_ref (record_frame s) = (if x0 s > 1 then 2 * next_ref s else next_ref s)"
  "r < next_ref s \<Longrightarrow> cell_heap (record_frame s) r = cell_heap s r"
  "x0 s > 1 \<Longrightarrow> c < next_ref s \<Longrightarrow>
     cell_heap (record_frame s) (c + next_ref s) = moved_cell (next_ref s) (cell_heap s c)"
  by (simp_all add: record_frame_def deepcopy_def Let_def)

lemma touches_live_record: "touches_live s (record_frame s)"
  by (simp add: touches_live_def record_frame_store)

lemma step_before_record:
  assumes "step_and_update K dt iters ylim len dir s = Some s'"
  shows "\<exists>s5. touches_live s s5 \<and> cell_timeseries s5 = cell_timeseries s \<and> x0 s5 = x0 s \<and>
           s' = finish_frame len dir (record_frame s5)"
proof -
  let ?s3 = "wipe_space (remove_cells_pass K dt ylim (remove_shapes_pass K dt ylim s))"
  from step_and_update_Some [OF assms] obtain s4 where
    u: "update_pm_cells K ?s3 = Some s4"
    and s': "s' = finish_frame len dir (record_frame (update_cell_positions K (steps K (nat iters) dt s4)))"
    by blast
  let ?s5 = "update_cell_positions K (steps K (nat iters) dt s4)"
  have a: "touches_live s ?s3"
    by (rule touches_live_trans [OF touches_live_remove_shapes
          touches_live_trans [OF touches_live_remove_cells touches_live_wipe]])
  from u have b: "touches_live ?s3 s4"
    unfolding update_pm_cells_def by (rule touches_live_loop)
  have c: "touches_live s4 ?s5"
    by (rule touches_live_trans [OF touches_live_steps touches_live_update_positions])
  have tl: "touches_live s ?s5"
    by (rule touches_live_trans [OF a touches_live_trans [OF b c]])
  from u have same: "cell_timeseries ?s5 = cell_timeseries s" "x0 ?s5 = x0 s"
    using loop_unchanged [of K 0 ?s3 s4] by (simp_all add: update_pm_cells_def)
  from tl same s' show ?thesis by (intro exI [of _ ?s5]) simp
qed

lemma step_keeps_snapshots:
  assumes "frames_apart s" and "step_and_update K dt iters ylim len dir s = Some s'"
  shows "frames_apart s'"
    and "\<exists>new. cell_timeseries s' = cell_timeseries s @ new"
    and "\<forall>fr \<in> set (cell_timeseries s). \<forall>r \<in> set fr. cell_heap s' r = cell_heap s r"
    and "x0 s > 1 \<longrightarrow>
           (\<exists>n. cell_timeseries s' = cell_timeseries s @ [map (\<lambda>c. c + n) (cells s')] \<and>
                (\<forall>c \<in> set (cells s'). cell_heap s' (c + n) = moved_cell n (cell_heap s' c)))"
proof -
  from step_before_record [OF assms(2)] obtain s5 where
    tl: "touches_live s s5" and ts: "cell_timeseries s5 = cell_timeseries s"
    and x: "x0 s5 = x0 s" and s': "s' = finish_frame len dir (record_frame s5)"
    by blast
  let ?n = "next_ref s5"
  from tl have n: "next_ref s \<le> ?n" by (simp add: touches_live_def)
  have live: "c < ?n" if "c \<in> set (cells s5)" for c
    using that tl assms(1) n by (fastforce simp: touches_live_def frames_apart_def)
  have old: "r < next_ref s \<and> r \<notin> set (cells s) \<and> r \<notin> set (cells s5) \<and> cell_heap s5 r = cell_heap s r"
    if "fr \<in> set (cell_timeseries s)" "r \<in> set fr" for fr r
    using that tl assms(1) by (fastforce simp: touches_live_def frames_apart_def)
  show "\<exists>new. cell_timeseries s' = cell_timeseries s @ new"
    by (simp add: s' record_frame_timeseries ts)
  show "\<forall>fr \<in> set (cell_timeseries s). \<forall>r \<in> set fr. cell_heap s' r = cell_heap s r"
  proof (intro ballI)
    fix fr r assume "fr \<in> set (cell_timeseries s)" "r \<in> set fr"
    from old [OF this] n show "cell_heap s' r = cell_heap s r"
      by (simp add: s' record_frame_store)
  qed
  show "x0 s > 1 \<longrightarrow>
      (\<exists>n. cell_timeseries s' = cell_timeseries s @ [map (\<lambda>c. c + n) (cells s')] \<and>
           (\<forall>c \<in> set (cells s'). cell_heap s' (c + n) = moved_cell n (cell_heap s' c)))"
  proof
    assume "x0 s > 1"
    with x have x5: "x0 s5 > 1" by simp
    have "cell_timeseries s' = cell_timeseries s @ [map (\<lambda>c. c + ?n) (cells s')]"
      using x5 by (simp add: s' record_frame_timeseries ts)
    moreover have "\<forall>c \<in> set (cells s'). cell_heap s' (c + ?n) = moved_cell ?n (cell_heap s' c)"
      using x5 live by (simp add: s' record_frame_store)
    ultimately show "\<exists>n. cell_timeseries s' = cell_timeseries s @ [map (\<lambda>c. c + n) (cells s')] \<and>
           (\<forall>c \<in> set (cells s'). cell_heap s' (c + n) = moved_cell n (cell_heap s' c))"
      by blast
  qed
  show "frames_apart s'"
    unfolding frames_apart_def
  proof (intro conjI ballI)
    fix c assume "c \<in> set (cells s')"
    then have "c \<in> set (cells s5)" by (simp add: s')
    from live [OF this] show "c < next_ref s'" by (simp add: s' record_frame_store)
  next
    fix fr r assume fr: "fr \<in> set (cell_timeseries s')" and r: "r \<in> set fr"
    show "r < next_ref s'"
    proof (cases "fr \<in> set (cell_timeseries s)")
      case True
      from old [OF True r] n show ?thesis by (simp add: s' record_frame_store)
    next
      case False
      with fr have "x0 s5 > 1" "fr = map (\<lambda>c. c + ?n) (cells s5)"
        by (auto simp: s' record_frame_timeseries ts split: if_splits)
      with r live show ?thesis by (auto simp: s' record_frame_store)
    qed
    show "r \<notin> set (cells s')"
    proof (cases "fr \<in> set (cell_timeseries s)")
      case True
      from old [OF True r] show ?thesis by (simp add: s')
    next
      case False
      with fr have "x0 s5 > 1" "fr = map (\<lambda>c. c + ?n) (cells s5)"
        by (auto simp: s' record_frame_timeseries ts split: if_splits)
      with r obtain c where "c \<in> set (cells s5)" "r = c + ?n" by auto
      with live [of r] show ?thesis by (auto simp: s')
    qed
  qed
qed

lemma initial_state_frames_apart: "frames_apart (initial_state K A sf)"
  by (simp add: frames_apart_def initial_state_def Let_def case_prod_beta create_space_def)







section \<open>The growth pass ends\<close>

lemma update_pm_cell_rests:
  "\<not> is_dividing K (update_length K (attrs (cell_heap s c))) \<Longrightarrow>
     cells (update_pm_cell K c s) = cells s"
  by (simp add: update_pm_cell_def Let_def set_attrs_def)

lemma update_pm_cell_daughter:
  "cells (update_pm_cell K c s) \<noteq> cells s \<Longrightarrow> c < next_ref s \<Longrightarrow>
     cells (update_pm_cell K c s) = cells s @ [next_ref s + 2] \<and>
     newborn K (update_pm_cell K c s) (next_ref s + 2)"
  by (auto simp: update_pm_cell_def divide_def pm_create_def Cell_init_def set_attrs_def
      set_daughter_def set_mother_def len_details_def Let_def case_prod_beta newborn_def
      split: option.splits if_splits)

lemma allocated_update_pm_cell:
  assumes "allocated s" and "c \<in> set (cells s)"
  shows "allocated (update_pm_cell K c s)"
  unfolding allocated_def
proof
  fix d assume "d \<in> set (cells (update_pm_cell K c s))"
  with touches_live_update_pm_cell [OF assms(2), of K] assms(1)
  show "d < next_ref (update_pm_cell K c s)"
    by (fastforce simp: touches_live_def allocated_def)
qed

lemma newborns_behind_step:
  assumes nb: "newborns_behind K n0 i s" and i: "i < length (cells s)"
    and cs: "cells (update_pm_cell K (cells s ! i) s) = cells s \<or>
             cells (update_pm_cell K (cells s ! i) s) = cells s @ [next_ref s + 2] \<and>
             newborn K (update_pm_cell K (cells s ! i) s) (next_ref s + 2)"
  shows "newborns_behind K n0 (Suc i) (update_pm_cell K (cells s ! i) s)"
proof -
  let ?c = "cells s ! i"
  let ?s1 = "update_pm_cell K ?c s"
  from nb have alloc: "allocated s" by (simp add: newborns_behind_def)
  from i have cin: "?c \<in> set (cells s)" by simp
  have old: "newborn K ?s1 (cells ?s1 ! j) \<and> (\<forall>k < j. cells ?s1 ! k \<noteq> cells ?s1 ! j)"
    if j: "n0 \<le> j" "Suc i \<le> j" "j < length (cells s)" for j
  proof -
    from nb j have nbj: "newborn K s (cells s ! j)" and dj: "\<forall>k < j. cells s ! k \<noteq> cells s ! j"
      by (simp_all add: newborns_behind_def)
    from cs j have same: "\<forall>k \<le> j. cells ?s1 ! k = cells s ! k"
      by (auto simp: nth_append)
    from dj j have "cells s ! j \<noteq> ?c" by (metis Suc_le_lessD)
    moreover from alloc j have "cells s ! j < next_ref s" by (simp add: allocated_def)
    ultimately have "cell_heap ?s1 (cells s ! j) = cell_heap s (cells s ! j)"
      by (rule update_pm_cell_heap)
    with nbj have "newborn K ?s1 (cells s ! j)" by (simp add: newborn_def)
    with same dj show ?thesis by simp
  qed
  have new: "newborn K ?s1 (cells ?s1 ! j) \<and> (\<forall>k < j. cells ?s1 ! k \<noteq> cells ?s1 ! j)"
    if j: "j < length (cells ?s1)" "\<not> j < length (cells s)" for j
  proof -
    from cs j have app: "cells ?s1 = cells s @ [next_ref s + 2]"
      and nb1: "newborn K ?s1 (next_ref s + 2)" and jl: "j = length (cells s)"
      by auto
    have "cells ?s1 ! k \<noteq> next_ref s + 2" if "k < j" for k
    proof -
      from that jl app have "cells ?s1 ! k = cells s ! k" by (simp add: nth_append)
      moreover from that jl alloc have "cells s ! k < next_ref s" by (simp add: allocated_def)
      ultimately show ?thesis by simp
    qed
    with app nb1 jl show ?thesis by simp
  qed
  show ?thesis
    unfolding newborns_behind_def
  proof (intro conjI allI impI)
    show "allocated ?s1" using alloc cin by (rule allocated_update_pm_cell)
  next
    fix j assume "n0 \<le> j \<and> Suc i \<le> j \<and> j < length (cells ?s1)"
    with old [of j] new [of j]
    show "newborn K ?s1 (cells ?s1 ! j)" by blast
  next
    fix j k assume "n0 \<le> j \<and> Suc i \<le> j \<and> j < length (cells ?s1)" "k < j"
    with old [of j] new [of j]
    show "cells ?s1 ! k \<noteq> cells ?s1 ! j" by blast
  qed
qed

lemma growth_loop_ends:
  assumes R: "newborn_rests K"
  shows "newborns_behind K n0 i s \<Longrightarrow> \<exists>s'. update_pm_cells_from K i s = Some s' \<and> allocated s'"
proof (induction "2 * (n0 - i) + (length (cells s) - i)" arbitrary: i s rule: less_induct)
  case less
  show ?case
  proof (cases "i < length (cells s)")
    case False
    with less.prems show ?thesis by (simp add: loop_done newborns_behind_def)
  next
    case True
    let ?c = "cells s ! i"
    let ?s1 = "update_pm_cell K ?c s"
    from less.prems have alloc: "allocated s" by (simp add: newborns_behind_def)
    with True have c: "?c < next_ref s" by (simp add: allocated_def)
    have cs: "cells ?s1 = cells s \<or>
        cells ?s1 = cells s @ [next_ref s + 2] \<and> newborn K ?s1 (next_ref s + 2)"
      using update_pm_cell_daughter [OF _ c, of K] by blast
    have rests: "cells ?s1 = cells s" if "n0 \<le> i"
    proof -
      from less.prems that True have "newborn K s ?c" by (simp add: newborns_behind_def)
      with R have "\<not> is_dividing K (update_length K (attrs (cell_heap s ?c)))"
        by (auto simp: newborn_def newborn_rests_def)
      then show ?thesis by (rule update_pm_cell_rests)
    qed
    from cs rests True
    have "2 * (n0 - Suc i) + (length (cells ?s1) - Suc i) < 2 * (n0 - i) + (length (cells s) - i)"
      by (cases "n0 \<le> i") auto
    moreover have "newborns_behind K n0 (Suc i) ?s1"
      using less.prems True cs by (rule newborns_behind_step)
    ultimately have "\<exists>s'. update_pm_cells_from K (Suc i) ?s1 = Some s' \<and> allocated s'"
      by (rule less.hyps)
    with True show ?thesis by (simp add: loop_step)
  qed
qed

lemma growth_pass_ends:
  assumes "newborn_rests K" and "allocated s"
  shows "\<exists>s'. update_pm_cells K s = Some s'"
proof -
  from assms(2) have "newborns_behind K (length (cells s)) 0 s"
    by (simp add: newborns_behind_def)
  from growth_loop_ends [OF assms(1) this] show ?thesis
    by (auto simp: update_pm_cells_def)
qed

lemma never_dividing_newborn_rests: "\<forall>a. \<not> is_dividing K a \<Longrightarrow> newborn_rests K"
  by (simp add: newborn_rests_def)

lemma frames_apart_allocated: "frames_apart s \<Longrightarrow> allocated s"
  by (simp add: frames_apart_def allocated_def)

lemma allocated_passes:
  "allocated s \<Longrightarrow>
     allocated (wipe_space (remove_cells_pass K dt ylim (remove_shapes_pass K dt ylim s)))"
  using set_fold_remove1_subset [of _ "cells s"]
  by (auto simp: allocated_def remove_cells_pass_cells)

lemma step_returns:
  assumes "newborn_rests K" and "allocated s"
  shows "\<exists>s'. step_and_update K dt iters ylim len dir s = Some s'"
  using growth_pass_ends [OF assms(1) allocated_passes [OF assms(2), where K = K and dt = dt and ylim = ylim]]
  by (auto simp: step_and_update_def)

lemma headless_returns:
  assumes "newborn_rests K"
  shows "frames_apart s \<Longrightarrow> \<exists>s'. headless K n dt iters ylim len dir s = Some s'"
proof (induction n arbitrary: s)
  case 0
  show ?case by simp
next
  case (Suc n)
  from step_returns [OF assms frames_apart_allocated [OF Suc.prems]] obtain s1 where
    s1: "step_and_update K dt iters ylim len dir s = Some s1" by blast
  from step_keeps_snapshots(1) [OF Suc.prems s1] have "frames_apart s1" .
  from Suc.IH [OF this] s1 show ?case by simp
qed

lemma app_run_returns:
  assumes "newborn_rests K"
  shows "frames_apart s \<Longrightarrow> x0 s \<le> len - 1 \<Longrightarrow> \<exists>s'. app_run K k iters ylim len dir s = Some s'"
proof (induction "nat (len - 1 - x0 s)" arbitrary: s k)
  case 0
  from step_returns [OF assms frames_apart_allocated [OF 0(2)]] obtain s1 where
    s1: "step_and_update K (clock K k) iters ylim len dir s = Some s1" by blast
  from 0 have "x0 s = len - 1" by simp
  with step_counter [OF s1] have "app_exit s1" by simp
  with s1 show ?case by (subst app_run.simps) simp
next
  case (Suc n)
  from step_returns [OF assms frames_apart_allocated [OF Suc(3)]] obtain s1 where
    s1: "step_and_update K (clock K k) iters ylim len dir s = Some s1" by blast
  from Suc(2) have ne: "x0 s \<noteq> len - 1" by simp
  with step_counter [OF s1] have x: "x0 s1 = x0 s + 1" by simp
  with Suc(2,4) have "n = nat (len - 1 - x0 s1)" "x0 s1 \<le> len - 1" by simp_all
  from Suc(1) [OF this(1) step_keeps_snapshots(1) [OF Suc(3) s1] this(2)] obtain s' where
    "app_run K (Suc k) iters ylim len dir s1 = Some s'" by blast
  with s1 show ?case by (subst app_run.simps) (simp split: if_splits)
qed

lemma run_returns:
  assumes "newborn_rests K" and "pix_mic_conv A \<noteq> 0"
    and "show_window A \<longrightarrow> 1 \<le> sim_length A"
  shows "\<exists>s'. run_simulation K A = Some (Inr s')"
proof (cases "show_window A")
  case True
  with assms(3) have "x0 (initial_state K A (1 / pix_mic_conv A * resize_amount A)) \<le> sim_length A - 1"
    by simp
  from app_run_returns [OF assms(1) initial_state_frames_apart this] True assms(2) show ?thesis
    by (auto simp: run_simulation_def Let_def split: option.splits)
next
  case False
  with headless_returns [OF assms(1) initial_state_frames_apart] assms(2) show ?thesis
    by (auto simp: run_simulation_def Let_def split: option.splits)
qed


lemma calm_newborn_rests: "newborn_rests calm"
  by (simp add: newborn_rests_def calm_def)

lemma calm_run_returns: "\<exists>s'. run_simulation calm (demo_args 3) = Some (Inr s')"
  by (rule run_returns [OF calm_newborn_rests]) (simp_all add: demo_args_def)

section \<open>The claims\<close>


lemma allocated_lone_cell: "allocated ((lone_cell y p a)\<lparr>x0 := k\<rparr>)" "allocated (lone_cell y p a)"
  by (simp_all add: allocated_def lone_cell_def create_space_def)

lemma allocated_two_cells: "allocated two_cells"
  by (simp add: allocated_def two_cells_def lone_cell_def create_space_def)

subsection \<open>C1: the length of the recorded time series\<close>

text \<open>
  Claim C1, as amended. For \<open>sim_length\<close> at least 2, a run that returns has recorded
  \<open>sim_length - 2\<close> frames when it is driven by the pyglet clock, which stops at the
  final frame. The headless loop makes \<open>sim_length + 2\<close> calls; the last three enter the
  final frame, each writing the files, so the run returns \<open>sim_length\<close> frames when
  \<open>sim_length\<close> is at least 3 (none when it is 2), and the time series file is written
  three times, with \<open>sim_length - 2\<close>, \<open>sim_length - 1\<close> and \<open>sim_length\<close> frames.
  The run returns when newborn cells do not divide at once and \<^verbatim>\<open>pix_mic_conv\<close> is not 0.
\<close>

theorem recorded_series_length:
  assumes "2 \<le> sim_length A"
  shows "(run_simulation K A = Some (Inr s') \<longrightarrow>
           length (cell_timeseries s') =
             (if show_window A \<or> sim_length A = 2 then nat (sim_length A - 2) else nat (sim_length A)) \<and>
           timeseries_writes (files s') =
             (if show_window A then [nat (sim_length A - 2)]
              else if sim_length A = 2 then [0, 0, 0]
              else [nat (sim_length A - 2), nat (sim_length A - 1), nat (sim_length A)])) \<and>
         (newborn_rests K \<and> pix_mic_conv A \<noteq> 0 \<longrightarrow> (\<exists>s1. run_simulation K A = Some (Inr s1)))"
proof (intro conjI impI)
  assume "run_simulation K A = Some (Inr s')"
  from run_series [OF this assms]
  show "length (cell_timeseries s') =
      (if show_window A \<or> sim_length A = 2 then nat (sim_length A - 2) else nat (sim_length A))"
    and "timeseries_writes (files s') =
      (if show_window A then [nat (sim_length A - 2)]
       else if sim_length A = 2 then [0, 0, 0]
       else [nat (sim_length A - 2), nat (sim_length A - 1), nat (sim_length A)])"
    by simp_all
next
  assume "newborn_rests K \<and> pix_mic_conv A \<noteq> 0"
  with assms show "\<exists>s1. run_simulation K A = Some (Inr s1)"
    by (intro run_returns) simp_all
qed

theorem recorded_series_length_witness:
  "map_option (map_sum id (\<lambda>s. (length (cell_timeseries s), timeseries_writes (files s))))
     (run_simulation calm (demo_args 3)) = Some (Inr (3, [1, 2, 3])) \<and>
   map_option (map_sum id (\<lambda>s. (length (cell_timeseries s), timeseries_writes (files s))))
     (run_simulation calm ((demo_args 3)\<lparr>show_window := True\<rparr>)) = Some (Inr (1, [1]))"
proof -
  let ?A = "demo_args 3"
  let ?B = "(demo_args 3)\<lparr>show_window := True\<rparr>"
  have A: "2 \<le> sim_length ?A" "pix_mic_conv ?A \<noteq> 0" "\<not> show_window ?A" "sim_length ?A = 3"
    and B: "2 \<le> sim_length ?B" "pix_mic_conv ?B \<noteq> 0" "show_window ?B" "sim_length ?B = 3"
    by (simp_all add: demo_args_def)
  from recorded_series_length [OF A(1), of calm] calm_newborn_rests A(2) obtain s1 where
    s1: "run_simulation calm ?A = Some (Inr s1)" by blast
  from recorded_series_length [OF B(1), of calm] calm_newborn_rests B(2) obtain s2 where
    s2: "run_simulation calm ?B = Some (Inr s2)" by blast
  from recorded_series_length [OF A(1), of calm s1] s1 A(3,4)
  have "length (cell_timeseries s1) = 3" "timeseries_writes (files s1) = [1, 2, 3]" by simp_all
  moreover from recorded_series_length [OF B(1), of calm s2] s2 B(3,4)
  have "length (cell_timeseries s2) = 1" "timeseries_writes (files s2) = [1]" by simp_all
  ultimately show ?thesis using s1 s2 by simp
qed

text \<open>
  The claim as stated fails for the headless run of \<open>sim_length = 3\<close>: it returns 3
  frames, not 1.
\<close>

theorem headless_run_returns_all_frames:
  "sim_length (demo_args 3) = 3 \<and>
   map_option (map_sum id (\<lambda>s. length (cell_timeseries s))) (run_simulation calm (demo_args 3))
     = Some (Inr 3)"
proof -
  from calm_run_returns obtain s1 where
    s1: "run_simulation calm (demo_args 3) = Some (Inr s1)" by blast
  from run_series [OF s1] s1 show ?thesis by (simp add: demo_args_def)
qed

subsection \<open>C2: the historic cell record\<close>

text \<open>
  Claim C2 asks \<^verbatim>\<open>historic_cells\<close> to hold every cell ever created. No frame appends to
  the list (\<open>step_historic_cells\<close>): after the frame in which cell 0 divides, the
  daughter 5 is live and the historic list still holds cell 0 only.
\<close>

theorem historic_cells_misses_daughter:
  "map_option (\<lambda>s. (cells s, historic_cells s))
     (step_and_update demo (1 / 20) 1 100 10 ''out'' (lone_cell 50 0 3)) = Some ([0, 5], [0])"
  unfolding ripe_step
  by (simp add: demo_division(2) lone_cell_def create_space_def demo_cell_def)

subsection \<open>C3: the guard against extinction\<close>

text \<open>
  Claim C3, as amended. With exactly one live cell the lysis branch never removes it,
  whatever the draw and the lysis probability: the pass removes that cell only when it
  is out of bounds, and this removal is not guarded.
\<close>

theorem single_cell_never_lysed:
  "cells s = [c] \<Longrightarrow>
     cells (remove_cells_pass K dt ylim s) = (if out_of_bounds ylim (cell_y s c) then [] else [c])"
  by (simp add: remove_cells_pass_cells cells_to_remove_unguarded)

theorem single_cell_never_lysed_witness:
  "cells (lone_cell 50 1 0) = [0] \<and> norm_ppf demo (lysis_p (cell_heap (lone_cell 50 1 0) 0)) = Plus_inf \<and>
   cells (remove_cells_pass demo (1 / 20) 100 (lone_cell 50 1 0)) = [0]"
proof -
  have c: "cells (lone_cell 50 1 0) = [0]" by (simp add: lone_cell_def create_space_def)
  from single_cell_never_lysed [OF c, of demo "1 / 20" 100] c show ?thesis
    by (simp add: lone_cell_def create_space_def out_of_bounds_def cell_y_def shape_y_def
        demo_cell_def demo_body_def norm_ppf_def)
qed

text \<open>
  The claim as stated fails for the removal by bounds: a single live cell below the
  trench is removed and the live list is left empty.
\<close>

theorem lone_cell_out_of_bounds_removed:
  "cells (lone_cell (- 1) 0 0) = [0] \<and>
   cells (remove_cells_pass demo (1 / 20) 100 (lone_cell (- 1) 0 0)) = []"
  by (simp add: remove_cells_pass_cells lone_cell_def create_space_def out_of_bounds_def
      cell_y_def shape_y_def demo_cell_def demo_body_def)

subsection \<open>C4: collecting before applying\<close>

text \<open>
  Claim C4, as amended. The removal of shapes, the removal of cells and \<^verbatim>\<open>wipe_space\<close>
  decide what to remove on the state at entry and remove afterwards: their results are
  the entry lists without the collected candidates. The growth and division pass does
  not follow the discipline: it appends the daughters to the list it is iterating, and
  it agrees with the pass over the cells live at entry exactly when it appends no
  daughter. The pass returns when the live cells are allocated and newborn cells do not
  divide at once.
\<close>

theorem passes_collect_then_apply:
  "space_shapes (remove_shapes_pass K dt ylim s) =
     filter (\<lambda>p. \<not> out_of_bounds ylim (shape_y s p)) (space_shapes s) \<and>
   cells (remove_cells_pass K dt ylim s) =
     fold remove1 (fst (cells_to_remove K ylim s (length (cells s)) (draws_used s) (cells s)))
       (cells s) \<and>
   space_bodies (wipe_space s) =
     fold remove1 (map fst (filter (\<lambda>(b, poly). dynamic s b) (zip (space_bodies s) (space_shapes s))))
       (space_bodies s) \<and>
   space_shapes (wipe_space s) =
     fold remove1 (map snd (filter (\<lambda>(b, poly). dynamic s b) (zip (space_bodies s) (space_shapes s))))
       (space_shapes s) \<and>
   (update_pm_cells K s = Some s' \<longrightarrow>
      (\<exists>ds. cells s' = cells s @ ds) \<and>
      (s' = update_pm_cells_snapshot K s \<longleftrightarrow> cells s' = cells s)) \<and>
   (newborn_rests K \<and> allocated s \<longrightarrow> (\<exists>s1. update_pm_cells K s = Some s1))"
proof -
  have "space_bodies (wipe_space s) =
      fold remove1 (map fst (filter (\<lambda>(b, poly). dynamic s b) (zip (space_bodies s) (space_shapes s))))
        (space_bodies s)"
    by (simp add: wipe_space_def Let_def fold_space_remove_body fold_space_remove_shape dynamic_def)
  moreover have "space_shapes (wipe_space s) =
      fold remove1 (map snd (filter (\<lambda>(b, poly). dynamic s b) (zip (space_bodies s) (space_shapes s))))
        (space_shapes s)"
    by (simp add: wipe_space_def Let_def fold_space_remove_body fold_space_remove_shape dynamic_def)
  moreover have "update_pm_cells K s = Some s' \<longrightarrow>
      (\<exists>ds. cells s' = cells s @ ds) \<and>
      (s' = update_pm_cells_snapshot K s \<longleftrightarrow> cells s' = cells s)"
  proof
    assume u: "update_pm_cells K s = Some s'"
    then have "\<exists>ds. cells s' = cells s @ ds"
      using loop_prefix [of K 0 s s'] by (simp add: update_pm_cells_def)
    with update_agrees_with_snapshot [OF u]
    show "(\<exists>ds. cells s' = cells s @ ds) \<and>
      (s' = update_pm_cells_snapshot K s \<longleftrightarrow> cells s' = cells s)" by simp
  qed
  moreover have "newborn_rests K \<and> allocated s \<longrightarrow> (\<exists>s1. update_pm_cells K s = Some s1)"
    by (blast intro: growth_pass_ends)
  moreover note remove_shapes_pass_shapes [of K dt ylim s] remove_cells_pass_cells [of K dt ylim s]
  ultimately show ?thesis by simp
qed

theorem passes_collect_then_apply_witness:
  "update_pm_cells demo (lone_cell 50 0 3) =
     Some (update_pm_cell demo 5 (update_pm_cell demo 0 (lone_cell 50 0 3))) \<and>
   cells (update_pm_cell demo 5 (update_pm_cell demo 0 (lone_cell 50 0 3))) = [0, 5] \<and>
   update_pm_cell demo 5 (update_pm_cell demo 0 (lone_cell 50 0 3)) \<noteq>
     update_pm_cells_snapshot demo (lone_cell 50 0 3)"
proof -
  let ?s = "lone_cell 50 0 3"
  let ?s' = "update_pm_cell demo 5 (update_pm_cell demo 0 ?s)"
  have c: "cells ?s = [0]" by (simp add: lone_cell_def create_space_def)
  from passes_collect_then_apply [of demo _ _ ?s ?s'] ripe_update
  have "?s' = update_pm_cells_snapshot demo ?s \<longleftrightarrow> cells ?s' = cells ?s" by blast
  with c ripe_second ripe_update show ?thesis by simp
qed

text \<open>
  The claim as stated fails for the growth and division pass: the daughter 5, appended
  while the list is iterated, is visited by the same pass (its body 8 is registered),
  where a pass over the cells live at entry registers the mother's body only.
\<close>

theorem daughter_visited_in_same_pass:
  "cells (lone_cell 50 0 3) = [0] \<and>
   map_option cells (update_pm_cells demo (lone_cell 50 0 3)) = Some [0, 5] \<and>
   map_option space_bodies (update_pm_cells demo (lone_cell 50 0 3)) = Some [3, 8] \<and>
   cells (update_pm_cells_snapshot demo (lone_cell 50 0 3)) = [0, 5] \<and>
   space_bodies (update_pm_cells_snapshot demo (lone_cell 50 0 3)) = [3]"
  unfolding ripe_update
  by (simp add: update_pm_cells_snapshot_def demo_defs)

subsection \<open>C5: \<^verbatim>\<open>wipe_space\<close>\<close>

text \<open>
  Claim C5, as amended. On an aligned space \<^verbatim>\<open>wipe_space\<close> removes exactly the dynamic
  bodies and the shapes attached to them, changes no object, and leaves the space
  aligned: no dynamic body and no shape of a dynamic body is left, and the static
  bodies and their shapes stay, in their order.
\<close>

theorem wipe_space_removes_dynamic:
  "aligned s \<Longrightarrow>
     space_bodies (wipe_space s) = filter (\<lambda>b. \<not> dynamic s b) (space_bodies s) \<and>
     space_shapes (wipe_space s) = filter (\<lambda>p. \<not> dynamic s (shape_body s p)) (space_shapes s) \<and>
     body_heap (wipe_space s) = body_heap s \<and> shape_body (wipe_space s) = shape_body s \<and>
     aligned (wipe_space s)"
  by (simp add: wipe_space_aligned wipe_space_keeps_aligned)

theorem wipe_space_removes_dynamic_witness:
  "aligned trench_and_cell \<and> space_bodies (wipe_space trench_and_cell) = [0] \<and>
   space_shapes (wipe_space trench_and_cell) = [5]"
  using wipe_space_removes_dynamic [OF aligned_trench_and_cell] aligned_trench_and_cell
  by (simp add: dynamic_def trench_and_cell_def lone_cell_def create_space_def demo_body_def)

text \<open>
  The claim as stated fails on a space that is not aligned: of the two shapes of one
  dynamic body, \<^verbatim>\<open>zip\<close> pairs the first with the body and the second is left in the
  space, attached to a dynamic body.
\<close>

theorem wipe_space_leaves_second_shape:
  "space_bodies shared_body_space = [1] \<and> space_shapes shared_body_space = [2, 4] \<and>
   dynamic shared_body_space 1 \<and>
   space_shapes (wipe_space shared_body_space) = [4] \<and>
   dynamic (wipe_space shared_body_space) (shape_body (wipe_space shared_body_space) 4)"
  by (simp add: wipe_space_def dynamic_def shared_body_space_def lone_cell_def create_space_def
      demo_body_def space_remove_body_def space_remove_shape_def)

subsection \<open>C6: the settling steps\<close>

text \<open>
  Claim C6, as amended. The 150 steps of 1/100 are inside the loop over the cells: an
  invocation of \<^verbatim>\<open>update_pm_cells\<close> that returns has made, for every cell of the
  resulting live list (the daughters appended by the pass included), one registration
  of a body and a shape followed at once by exactly 150 steps of 1/100, and nothing else.
  The invocation returns when the live cells are allocated and newborn cells do not
  divide at once.
\<close>

theorem settling_steps_per_cell:
  "(update_pm_cells K s = Some s' \<longrightarrow>
      length (cells s) \<le> length (cells s') \<and>
      (\<exists>bps. length bps = length (cells s') \<and> calls s' = calls s @ concat (map settle_block bps))) \<and>
   (newborn_rests K \<and> allocated s \<longrightarrow> (\<exists>s1. update_pm_cells K s = Some s1))"
  using loop_calls [of K 0 s s'] growth_pass_ends [of K s] by (simp add: update_pm_cells_def)

theorem settling_steps_per_cell_witness:
  "update_pm_cells calm two_cells = Some (update_pm_cells_snapshot calm two_cells) \<and>
   length (cells (update_pm_cells_snapshot calm two_cells)) = 2 \<and>
   (\<exists>bps. length bps = 2 \<and>
      calls (update_pm_cells_snapshot calm two_cells) = calls two_cells @ concat (map settle_block bps))"
proof -
  have "length (cells (update_pm_cells_snapshot calm two_cells)) = 2"
    by (simp add: update_pm_cells_snapshot_def two_cells_def never_dividing_cells [OF calm_never_divides]
        lone_cell_def create_space_def)
  moreover from settling_steps_per_cell [of calm two_cells] calm_newborn_rests allocated_two_cells
  obtain s1 where s1: "update_pm_cells calm two_cells = Some s1" by blast
  moreover from s1 two_cells_update have "s1 = update_pm_cells_snapshot calm two_cells" by simp
  moreover note settling_steps_per_cell [of calm two_cells s1]
  ultimately show ?thesis by simp
qed

text \<open>
  The claim as stated fails with two live cells: one invocation makes 300 steps of
  1/100, 150 after each registration.
\<close>

theorem two_cells_settle_300:
  "length (cells two_cells) = 2 \<and>
   map_option (\<lambda>s. count_list (calls s) (Step (1 / 100))) (update_pm_cells calm two_cells) = Some 300"
  unfolding two_cells_update
  by (simp add: update_pm_cells_snapshot_def two_cells_def demo_defs)

subsection \<open>C7: the removal of out-of-bounds shapes\<close>

text \<open>
  Claim C7. The pass at the start of a frame removes every shape whose body is out of
  bounds when the pass starts, together with the body it is attached to, and calls
  \<^verbatim>\<open>space.step(dt)\<close> once after each removal: the calls on the space are, for each
  such shape in order, the removal of its body, the removal of the shape and one step.
\<close>

theorem world_removal_interleaved:
  "calls (remove_shapes_pass K dt ylim s) =
     calls s @ concat (map (\<lambda>p. [Remove_body (shape_body s p), Remove_shape p, Step dt])
                        (filter (\<lambda>p. out_of_bounds ylim (shape_y s p)) (space_shapes s))) \<and>
   space_shapes (remove_shapes_pass K dt ylim s) =
     filter (\<lambda>p. \<not> out_of_bounds ylim (shape_y s p)) (space_shapes s) \<and>
   mset (space_bodies (remove_shapes_pass K dt ylim s)) =
     mset (space_bodies s) -
     mset (map (shape_body s) (filter (\<lambda>p. out_of_bounds ylim (shape_y s p)) (space_shapes s)))"
  by (simp only: remove_shapes_pass_calls remove_shapes_pass_shapes remove_shapes_pass_bodies)

subsection \<open>C8: a population that does not decrease\<close>



subsection \<open>C9: recorded frames are independent of the live cells\<close>



subsection \<open>C10: the frame counter at the final frame\<close>

text \<open>
  Claim C10, as amended. A frame that starts with the counter at most \<open>sim_length - 1\<close>
  ends with it at most \<open>sim_length - 1\<close> (the counter starts at 0, so this needs
  \<open>sim_length\<close> at least 1). A frame entered with the counter equal to
  \<open>sim_length - 1\<close> writes both files, calls \<^verbatim>\<open>pyglet.app.exit()\<close> and returns with the
  counter unchanged, so the next call enters the same branch; it appends a frame only
  when \<open>sim_length\<close> is at least 3, that is when the counter is above 1. The frame
  returns when the live cells are allocated and newborn cells do not divide at once.
\<close>

theorem final_frame_reentered:
  "(step_and_update K dt iters ylim len dir s = Some s' \<longrightarrow>
      (x0 s \<le> len - 1 \<longrightarrow> x0 s' \<le> len - 1) \<and>
      (x0 s = len - 1 \<longrightarrow>
         x0 s' = x0 s \<and> app_exit s' \<and>
         map fst (files s') =
           map fst (files s) @ [dir @ ''/cell_timeseries.p'', dir @ ''/space_timeseries.p''] \<and>
         timeseries_writes (files s') = timeseries_writes (files s) @ [length (cell_timeseries s')] \<and>
         length (cell_timeseries s') = length (cell_timeseries s) + (if 3 \<le> len then 1 else 0))) \<and>
   (newborn_rests K \<and> allocated s \<longrightarrow> (\<exists>s1. step_and_update K dt iters ylim len dir s = Some s1))"
proof (intro conjI impI)
  assume st: "step_and_update K dt iters ylim len dir s = Some s'"
  {
    assume "x0 s \<le> len - 1"
    with step_counter [OF st] show "x0 s' \<le> len - 1" by auto
  }
  {
    assume x: "x0 s = len - 1"
    with step_counter [OF st]
    show "x0 s' = x0 s" "app_exit s'"
      "map fst (files s') =
         map fst (files s) @ [dir @ ''/cell_timeseries.p'', dir @ ''/space_timeseries.p'']"
      "timeseries_writes (files s') = timeseries_writes (files s) @ [length (cell_timeseries s')]"
      "length (cell_timeseries s') = length (cell_timeseries s) + (if 3 \<le> len then 1 else 0)"
      by auto
  }
next
  assume "newborn_rests K \<and> allocated s"
  then show "\<exists>s1. step_and_update K dt iters ylim len dir s = Some s1"
    by (blast intro: step_returns)
qed

theorem final_frame_reentered_witness:
  "x0 ((lone_cell 50 0 0)\<lparr>x0 := 2\<rparr>) = 3 - 1 \<and>
   map_option (\<lambda>s'. (x0 s', app_exit s', length (cell_timeseries s'), timeseries_writes (files s')))
     (step_and_update calm (1 / 20) 1 100 3 ''out'' ((lone_cell 50 0 0)\<lparr>x0 := 2\<rparr>))
   = Some (2, True, 1, [1])"
proof -
  let ?s = "(lone_cell 50 0 0)\<lparr>x0 := 2\<rparr>"
  note T = final_frame_reentered [of calm "1 / 20" 1 100 3 "''out''" ?s]
  from T calm_newborn_rests allocated_lone_cell(1) obtain s' where
    s': "step_and_update calm (1 / 20) 1 100 3 ''out'' ?s = Some s'" by blast
  have init: "x0 ?s = 2" "cell_timeseries ?s = []" "files ?s = []"
    by (simp_all add: lone_cell_def create_space_def)
  from T [of s'] init s' show ?thesis by simp
qed

text \<open>
  The claim as stated fails for \<open>sim_length = 2\<close>: a call entered with the counter at 1
  writes the files again and appends no frame.
\<close>

theorem reentry_appends_no_frame:
  "x0 ((lone_cell 50 0 0)\<lparr>x0 := 1\<rparr>) = 2 - 1 \<and>
   cell_timeseries ((lone_cell 50 0 0)\<lparr>x0 := 1\<rparr>) = [] \<and>
   map_option (\<lambda>s'. (x0 s', length (cell_timeseries s'), timeseries_writes (files s')))
     (step_and_update calm (1 / 20) 1 100 2 ''out'' ((lone_cell 50 0 0)\<lparr>x0 := 1\<rparr>))
   = Some (1, 0, [0])"
proof -
  let ?s = "(lone_cell 50 0 0)\<lparr>x0 := 1\<rparr>"
  from never_dividing_step_returns [OF calm_never_divides] obtain s' where
    s': "step_and_update calm (1 / 20) 1 100 2 ''out'' ?s = Some s'" by blast
  have init: "x0 ?s = 1" "cell_timeseries ?s = []" "files ?s = []"
    by (simp_all add: lone_cell_def create_space_def)
  from step_counter [OF s'] init s' show ?thesis by simp
qed

end
